theory Spec2Isabelle
  imports Main "HOL-Library.AList"
begin

section \<open>Batch Asset Replacer (ae-scripts/batch-asset-replacer.jsx)\<close>

text \<open>
  A shallow embedding of the script \<^verbatim>\<open>batch-asset-replacer.jsx\<close>. Strings are lists
  of 8-bit characters (code units below 256). The objects the script uses as
  dictionaries are maps from strings (an association list where the script enumerates
  the keys), which hold the properties the objects own. Reading a property that an
  object does not own gives what it inherits from \<^verbatim>\<open>Object.prototype\<close>: the objects
  \<^verbatim>\<open>processed\<close>, \<^verbatim>\<open>dupeMap\<close> and \<^verbatim>\<open>allDupes\<close> are read at the names of
  compositions, and the embedding makes these reads through the prototype, as well as
  the calls of \<^verbatim>\<open>hasOwnProperty\<close> on \<^verbatim>\<open>masterCompNames\<close> and \<^verbatim>\<open>dupeMap\<close>. The
  rows of the manifest are read at the three reserved names, which name no inherited
  property, and at the language columns, which \<^verbatim>\<open>parseCSV\<close> stores in every row;
  \<^verbatim>\<open>compInfo\<close> is read at names that the script has stored in it. The manifest is
  taken not to use the key \<^verbatim>\<open>__proto__\<close> as a header or as a composition name:
  engines may treat an assignment to it specially. Log output, folders and dialog texts
  are not part of the model.
\<close>

subsection \<open>Configuration and string utilities\<close>

definition reservedColumns :: "string list" where
  "reservedColumns = [''comp_name'', ''layer_name'', ''type'']"

text \<open>The characters matched by \<^verbatim>\<open>\s\<close>: tab, line feed, vertical tab, form feed,
  carriage return, space and no-break space.\<close>

definition is_space :: "char \<Rightarrow> bool" where
  "is_space c = (c \<in> set [CHR 0x09, CHR 0x0A, CHR 0x0B, CHR 0x0C, CHR 0x0D, CHR 0x20, CHR 0xA0])"

definition trim :: "string \<Rightarrow> string" where
  "trim str = rev (dropWhile is_space (rev (dropWhile is_space str)))"

text \<open>\<^verbatim>\<open>toLowerCase\<close> on code units below 256: the letters A to Z and the accented
  capitals 192 to 222 (215, the multiplication sign, apart) move up by 32, which sets
  bit 5 of the code unit.\<close>

definition lower_char :: "char \<Rightarrow> char" where
  "lower_char c =
     (let n = (of_char c :: nat)
      in if (65 \<le> n \<and> n \<le> 90) \<or> (192 \<le> n \<and> n \<le> 222 \<and> n \<noteq> 215)
         then (case c of Char b0 b1 b2 b3 b4 b5 b6 b7 \<Rightarrow> Char b0 b1 b2 b3 b4 True b6 b7)
         else c)"

definition toLowerCase :: "string \<Rightarrow> string" where
  "toLowerCase s = map lower_char s"

text \<open>\<^verbatim>\<open>lang.toLowerCase().replace(/[^a-z0-9]/g, "_")\<close>\<close>

definition is_a_z_0_9 :: "char \<Rightarrow> bool" where
  "is_a_z_0_9 c =
     (let n = (of_char c :: nat)
      in (97 \<le> n \<and> n \<le> 122) \<or> (48 \<le> n \<and> n \<le> 57))"

definition langSuffix_of :: "string \<Rightarrow> string" where
  "langSuffix_of lang =
     map (\<lambda>c. if is_a_z_0_9 c then c else CHR ''_'') (toLowerCase lang)"

text \<open>A value that may be \<^verbatim>\<open>undefined\<close>, and its conversion to a string.\<close>

definition js_str :: "string option \<Rightarrow> string" where
  "js_str v = (case v of None \<Rightarrow> ''undefined'' | Some s \<Rightarrow> s)"

subsection \<open>CSV parsing\<close>

text \<open>The loop of \<^verbatim>\<open>parseCSVLine\<close>: the characters still to read, \<^verbatim>\<open>current\<close>,
  \<^verbatim>\<open>inQuotes\<close> and \<^verbatim>\<open>result\<close>.\<close>

fun parse_loop :: "string \<Rightarrow> string \<Rightarrow> bool \<Rightarrow> string list \<Rightarrow> string list" where
  "parse_loop [] current inQuotes result = result @ [current]"
| "parse_loop (ch # rest) current inQuotes result =
     (if ch = CHR 0x22 then
        (case rest of
           [] \<Rightarrow> parse_loop rest current (\<not> inQuotes) result
         | c2 # rest2 \<Rightarrow>
             if inQuotes \<and> c2 = CHR 0x22
             then parse_loop rest2 (current @ [CHR 0x22]) inQuotes result
             else parse_loop rest current (\<not> inQuotes) result)
      else if ch = CHR '','' \<and> \<not> inQuotes then parse_loop rest [] inQuotes (result @ [current])
      else parse_loop rest (current @ [ch]) inQuotes result)"

definition parseCSVLine :: "string \<Rightarrow> string list" where
  "parseCSVLine line = parse_loop line [] False []"

text \<open>\<^verbatim>\<open>csvString.split(/\r?\n/)\<close>\<close>

fun cons_first :: "char \<Rightarrow> string list \<Rightarrow> string list" where
  "cons_first c [] = [[c]]"
| "cons_first c (l # ls) = (c # l) # ls"

fun split_lines :: "string \<Rightarrow> string list" where
  "split_lines [] = [[]]"
| "split_lines [c] = (if c = CHR 0x0A then [[], []] else [[c]])"
| "split_lines (c # c2 # cs) =
     (if c = CHR 0x0A then [] # split_lines (c2 # cs)
      else if c = CHR 0x0D \<and> c2 = CHR 0x0A then [] # split_lines cs
      else cons_first c (split_lines (c2 # cs)))"

type_synonym row = "(string \<times> string) list"

text \<open>\<^verbatim>\<open>row[headers[j]] = (j < values.length) ? trim(values[j]) : ""\<close> for every j.\<close>

fun make_row :: "string list \<Rightarrow> string list \<Rightarrow> row \<Rightarrow> row" where
  "make_row [] vs r = r"
| "make_row (h # hs) vs r =
     make_row hs (tl vs) (AList.update h (case vs of [] \<Rightarrow> [] | v # _ \<Rightarrow> trim v) r)"

fun parse_rows :: "string list \<Rightarrow> string list \<Rightarrow> row list" where
  "parse_rows hs [] = []"
| "parse_rows hs (l # ls) =
     (let line = trim l
      in if line = [] then parse_rows hs ls
         else make_row hs (parseCSVLine line) [] # parse_rows hs ls)"

record csv_data =
  headers :: "string list"
  rows :: "row list"

definition parseCSV :: "string \<Rightarrow> csv_data" where
  "parseCSV csvString =
     (case split_lines csvString of
        [] \<Rightarrow> \<lparr>headers = [], rows = []\<rparr>
      | l0 # ls \<Rightarrow>
          (let hs = map trim (parseCSVLine l0)
           in \<lparr>headers = hs, rows = parse_rows hs ls\<rparr>))"

fun isReserved :: "string \<Rightarrow> string list \<Rightarrow> bool" where
  "isReserved h [] = False"
| "isReserved h (r # rs) = (if h = r then True else isReserved h rs)"

fun detectLanguages :: "string list \<Rightarrow> string list" where
  "detectLanguages [] = []"
| "detectLanguages (h # hs) =
     (if \<not> isReserved (toLowerCase h) reservedColumns \<and> h \<noteq> []
      then h # detectLanguages hs else detectLanguages hs)"

subsection \<open>The project: compositions and their layers\<close>

text \<open>
  The host document is a store of compositions. A composition is identified by its
  position in the store; the items of a well-formed project refer to positions inside
  the store, and the accessors return an empty composition elsewhere. A layer is a text
  layer (name and text), a layer with a source (a composition or a footage item), or a
  layer of another kind (camera, light, shape), which has no source.
\<close>

type_synonym comp_id = nat

datatype source = CompItem comp_id | FootageItem string

datatype layer = TextLayer string string | AVLayer string source | OtherLayer string

record comp =
  cname :: string
  layers :: "layer list"

type_synonym project = "comp list"

fun layer_name :: "layer \<Rightarrow> string" where
  "layer_name (TextLayer n t) = n"
| "layer_name (AVLayer n s) = n"
| "layer_name (OtherLayer n) = n"

text \<open>\<^verbatim>\<open>layer.source && layer.source instanceof CompItem\<close>\<close>

fun comp_source :: "layer \<Rightarrow> comp_id option" where
  "comp_source (AVLayer n (CompItem c)) = Some c"
| "comp_source l = None"

definition layers_of :: "project \<Rightarrow> comp_id \<Rightarrow> layer list" where
  "layers_of st c = (if c < length st then layers (st ! c) else [])"

definition name_of :: "project \<Rightarrow> comp_id \<Rightarrow> string" where
  "name_of st c = (if c < length st then cname (st ! c) else [])"

fun findComp_from :: "comp list \<Rightarrow> nat \<Rightarrow> string \<Rightarrow> comp_id option" where
  "findComp_from [] i nm = None"
| "findComp_from (c # cs) i nm = (if cname c = nm then Some i else findComp_from cs (Suc i) nm)"

definition findComp :: "project \<Rightarrow> string \<Rightarrow> comp_id option" where
  "findComp st nm = findComp_from st 0 nm"

subsection \<open>Deep layer search\<close>

text \<open>
  \<^verbatim>\<open>findLayerDeep\<close> recurses without a guard, so the model bounds the depth of the
  recursion: the outer \<open>None\<close> is a search that did not return within the bound,
  \<open>Some None\<close> is \<^verbatim>\<open>null\<close>, and \<open>Some (Some (i, c))\<close> is the layer at position
  \<open>i\<close> of composition \<open>c\<close>. The name looked for may be \<^verbatim>\<open>undefined\<close>.
\<close>

type_synonym found = "nat \<times> comp_id"

fun find_layer :: "layer list \<Rightarrow> nat \<Rightarrow> string option \<Rightarrow> nat option" where
  "find_layer [] i nm = None"
| "find_layer (l # ls) i nm =
     (if Some (layer_name l) = nm then Some i else find_layer ls (Suc i) nm)"

fun findLayerDeep :: "nat \<Rightarrow> project \<Rightarrow> comp_id \<Rightarrow> string option \<Rightarrow> found option option"
  and find_in_children :: "nat \<Rightarrow> project \<Rightarrow> layer list \<Rightarrow> string option \<Rightarrow> found option option"
where
  "findLayerDeep 0 st c nm = None"
| "findLayerDeep (Suc k) st c nm =
     (case find_layer (layers_of st c) 0 nm of
        Some i \<Rightarrow> Some (Some (i, c))
      | None \<Rightarrow> find_in_children k st (layers_of st c) nm)"
| "find_in_children k st [] nm = Some None"
| "find_in_children k st (l # ls) nm =
     (case comp_source l of
        None \<Rightarrow> find_in_children k st ls nm
      | Some sub \<Rightarrow>
          (case findLayerDeep k st sub nm of
             None \<Rightarrow> None
           | Some (Some r) \<Rightarrow> Some (Some r)
           | Some None \<Rightarrow> find_in_children k st ls nm))"

subsection \<open>Discovery of the sub-compositions\<close>

definition comp_ids :: "layer list \<Rightarrow> comp_id set" where
  "comp_ids ls = {c. \<exists>l \<in> set ls. comp_source l = Some c}"

definition project_ids :: "project \<Rightarrow> comp_id set" where
  "project_ids st = (\<Union>c \<in> set st. comp_ids (layers c))"

function discover :: "project \<Rightarrow> layer list \<Rightarrow> comp_id list \<Rightarrow> comp_id list" where
  "discover st [] collected = collected"
| "discover st (l # ls) collected =
     (case comp_source l of
        None \<Rightarrow> discover st ls collected
      | Some subComp \<Rightarrow>
          if subComp \<in> set collected then discover st ls collected
          else discover st ls (discover st (layers_of st subComp) (collected @ [subComp])))"
  by pat_completeness auto

lemma finite_comp_ids: "finite (comp_ids ls)"
proof -
  have "comp_ids ls \<subseteq> (\<lambda>l. case comp_source l of Some c \<Rightarrow> c | None \<Rightarrow> 0) ` set ls"
    by (force simp: comp_ids_def)
  then show ?thesis by (rule finite_surj[rotated]) simp
qed

lemma finite_project_ids: "finite (project_ids st)"
  by (simp add: project_ids_def finite_comp_ids)

lemma comp_ids_layers_of: "comp_ids (layers_of st c) \<subseteq> project_ids st"
  using nth_mem[of c st] by (fastforce simp: layers_of_def project_ids_def comp_ids_def)

lemma comp_ids_Cons:
  "comp_ids (l # ls) = (case comp_source l of None \<Rightarrow> {} | Some c \<Rightarrow> {c}) \<union> comp_ids ls"
  by (auto simp: comp_ids_def split: option.splits)

lemma discover_dom_grows:
  "discover_dom (st, ls, collected) \<Longrightarrow> set collected \<subseteq> set (discover st ls collected)"
proof (induction st ls collected rule: discover.pinduct)
  case (1 st collected)
  then show ?case by (simp add: discover.psimps)
next
  case (2 st l ls collected)
  show ?case
  proof (cases "comp_source l")
    case None
    with 2 show ?thesis by (simp add: discover.psimps)
  next
    case (Some subComp)
    show ?thesis
    proof (cases "subComp \<in> set collected")
      case True
      with 2 Some show ?thesis by (simp add: discover.psimps)
    next
      case False
      from 2(4)[OF Some False] have "set (collected @ [subComp])
          \<subseteq> set (discover st (layers_of st subComp) (collected @ [subComp]))" .
      moreover from 2(5)[OF Some False] have
        "set (discover st (layers_of st subComp) (collected @ [subComp]))
          \<subseteq> set (discover st ls (discover st (layers_of st subComp) (collected @ [subComp])))" .
      ultimately show ?thesis using 2(1) Some False by (auto simp: discover.psimps)
    qed
  qed
qed

termination discover
proof (relation "inv_image (less_than <*lex*> less_than)
    (\<lambda>(st, ls, collected). (card ((project_ids st \<union> comp_ids ls) - set collected), length ls))",
    goal_cases)
  case 1
  show ?case by (intro wf_inv_image wf_lex_prod wf_less_than)
next
  case (2 st l ls collected)
  have "(project_ids st \<union> comp_ids ls) - set collected
        \<subseteq> (project_ids st \<union> comp_ids (l # ls)) - set collected"
    by (auto simp: comp_ids_Cons)
  then have "card ((project_ids st \<union> comp_ids ls) - set collected)
        \<le> card ((project_ids st \<union> comp_ids (l # ls)) - set collected)"
    by (intro card_mono) (simp_all add: finite_project_ids finite_comp_ids)
  then show ?case by auto
next
  case (3 st l ls collected subComp)
  have "(project_ids st \<union> comp_ids ls) - set collected
        \<subseteq> (project_ids st \<union> comp_ids (l # ls)) - set collected"
    by (auto simp: comp_ids_Cons)
  then have "card ((project_ids st \<union> comp_ids ls) - set collected)
        \<le> card ((project_ids st \<union> comp_ids (l # ls)) - set collected)"
    by (intro card_mono) (simp_all add: finite_project_ids finite_comp_ids)
  then show ?case by auto
next
  case (4 st l ls collected subComp)
  have "(project_ids st \<union> comp_ids (layers_of st subComp)) - set (collected @ [subComp])
        \<subset> (project_ids st \<union> comp_ids (l # ls)) - set collected"
    using 4 comp_ids_layers_of[of st subComp] by (auto simp: comp_ids_Cons)
  then have "card ((project_ids st \<union> comp_ids (layers_of st subComp)) - set (collected @ [subComp]))
        < card ((project_ids st \<union> comp_ids (l # ls)) - set collected)"
    by (intro psubset_card_mono) (simp_all add: finite_project_ids finite_comp_ids)
  then show ?case by auto
next
  case (5 st l ls collected subComp)
  have "set collected \<subseteq> set (discover st (layers_of st subComp) (collected @ [subComp]))"
    using discover_dom_grows[OF 5(3)] by auto
  then have "(project_ids st \<union> comp_ids ls)
          - set (discover st (layers_of st subComp) (collected @ [subComp]))
        \<subseteq> (project_ids st \<union> comp_ids (l # ls)) - set collected"
    by (auto simp: comp_ids_Cons)
  then have "card ((project_ids st \<union> comp_ids ls)
          - set (discover st (layers_of st subComp) (collected @ [subComp])))
        \<le> card ((project_ids st \<union> comp_ids (l # ls)) - set collected)"
    by (intro card_mono) (simp_all add: finite_project_ids finite_comp_ids)
  then show ?case by auto
qed

definition discoverAllSubComps :: "project \<Rightarrow> comp_id \<Rightarrow> comp_id list" where
  "discoverAllSubComps st c = discover st (layers_of st c) []"

subsection \<open>The host and the objects used as dictionaries\<close>

text \<open>
  The host answers whether a file exists and whether its import succeeds, and it fixes
  the script engine: \<open>inherited h nm\<close> says that every object inherits a property
  named \<open>nm\<close> from \<^verbatim>\<open>Object.prototype\<close> (\<^verbatim>\<open>constructor\<close>, \<^verbatim>\<open>toString\<close>,
  \<^verbatim>\<open>hasOwnProperty\<close> and so on). The value of such a property is a function or an
  object: it counts as true in a condition, and it is not a composition.
\<close>

record host =
  file_exists :: "string \<Rightarrow> bool"
  import_ok :: "string \<Rightarrow> bool"
  inherited :: "string \<Rightarrow> bool"

text \<open>
  \<^verbatim>\<open>obj[nm]\<close> for an object created as \<^verbatim>\<open>{}\<close>: the property the object owns, or
  else the one it inherits, or else \<^verbatim>\<open>undefined\<close>.
\<close>

datatype 'a property = Own 'a | Inherited | Undefined

definition property_of :: "host \<Rightarrow> (string \<rightharpoonup> 'a) \<Rightarrow> string \<Rightarrow> 'a property" where
  "property_of h obj nm =
     (case obj nm of
        Some v \<Rightarrow> Own v
      | None \<Rightarrow> if inherited h nm then Inherited else Undefined)"

text \<open>
  \<^verbatim>\<open>obj[nm]\<close> read as a condition, for an object whose own properties are all set to
  \<^verbatim>\<open>true\<close>; \<open>obj\<close> tells which names the object owns.
\<close>

definition flag :: "host \<Rightarrow> (string \<Rightarrow> bool) \<Rightarrow> string \<Rightarrow> bool" where
  "flag h obj nm = (obj nm \<or> inherited h nm)"

text \<open>
  \<^verbatim>\<open>obj.hasOwnProperty(key)\<close>: the method is the one every object inherits, unless the
  object owns a property named \<^verbatim>\<open>hasOwnProperty\<close>, which hides it. The objects of the
  script hold no function, so the call on such an object raises an error: the result
  is \<open>None\<close>.
\<close>

definition hasOwnProperty :: "(string \<rightharpoonup> 'a) \<Rightarrow> string \<Rightarrow> bool option" where
  "hasOwnProperty obj key =
     (if obj ''hasOwnProperty'' \<noteq> None then None else Some (obj key \<noteq> None))"

subsection \<open>Duplication engine\<close>

text \<open>The objects \<^verbatim>\<open>processed\<close> and \<^verbatim>\<open>dupeMap\<close> are keyed by composition names;
  both start as \<^verbatim>\<open>{}\<close>, with no property of their own.\<close>

fun allChildrenDone ::
  "host \<Rightarrow> project \<Rightarrow> comp_id list \<Rightarrow> (string \<Rightarrow> bool) \<Rightarrow> layer list \<Rightarrow> bool"
where
  "allChildrenDone h st allSubComps processed [] = True"
| "allChildrenDone h st allSubComps processed (l # ls) =
     (case comp_source l of
        None \<Rightarrow> allChildrenDone h st allSubComps processed ls
      | Some src \<Rightarrow>
          if src \<in> set allSubComps \<and> \<not> flag h processed (name_of st src) then False
          else allChildrenDone h st allSubComps processed ls)"

type_synonym sort_state = "(string \<Rightarrow> bool) \<times> comp_id list"

text \<open>One run of the inner \<^verbatim>\<open>for\<close> loop over \<^verbatim>\<open>allSubComps\<close>.\<close>

fun sort_pass ::
  "host \<Rightarrow> project \<Rightarrow> comp_id list \<Rightarrow> comp_id list \<Rightarrow> sort_state \<Rightarrow> sort_state"
where
  "sort_pass h st allSubComps [] s = s"
| "sort_pass h st allSubComps (sc # rest) (processed, sortedComps) =
     (if flag h processed (name_of st sc)
      then sort_pass h st allSubComps rest (processed, sortedComps)
      else if allChildrenDone h st allSubComps processed (layers_of st sc)
      then sort_pass h st allSubComps rest (processed(name_of st sc := True), sortedComps @ [sc])
      else sort_pass h st allSubComps rest (processed, sortedComps))"

text \<open>The \<^verbatim>\<open>while\<close> loop; the fourth argument is \<^verbatim>\<open>maxIterations - iterations\<close>.\<close>

fun sort_while :: "host \<Rightarrow> project \<Rightarrow> comp_id list \<Rightarrow> nat \<Rightarrow> sort_state \<Rightarrow> sort_state" where
  "sort_while h st allSubComps 0 s = s"
| "sort_while h st allSubComps (Suc left) (processed, sortedComps) =
     (if length sortedComps < length allSubComps
      then sort_while h st allSubComps left
             (sort_pass h st allSubComps allSubComps (processed, sortedComps))
      else (processed, sortedComps))"

definition sortComps :: "host \<Rightarrow> project \<Rightarrow> comp_id list \<Rightarrow> comp_id list" where
  "sortComps h st allSubComps =
     snd (sort_while h st allSubComps (length allSubComps * length allSubComps + 1)
            (\<lambda>_. False, []))"

text \<open>\<^verbatim>\<open>original.duplicate()\<close> followed by the renaming: the copy is the new last
  composition of the store, with the layers of the original.\<close>

definition duplicate :: "project \<Rightarrow> comp_id \<Rightarrow> string \<Rightarrow> project" where
  "duplicate st original langSuffix =
     st @ [\<lparr>cname = name_of st original @ ''_'' @ langSuffix, layers = layers_of st original\<rparr>]"

text \<open>
  The body of a relinking loop, for one layer: when the source of the layer is a
  composition and \<^verbatim>\<open>dupeMap[source.name]\<close> counts as true, the script calls
  \<^verbatim>\<open>replaceSource\<close> with it. With a duplicate, \<^verbatim>\<open>replaceSource\<close> changes the source
  of the layer and nothing else. With an inherited property, which is not a
  composition, \<^verbatim>\<open>replaceSource\<close> raises an error, which the script does not catch:
  the result is \<open>None\<close>.
\<close>

fun relink_layer :: "host \<Rightarrow> project \<Rightarrow> (string \<rightharpoonup> comp_id) \<Rightarrow> layer \<Rightarrow> layer option" where
  "relink_layer h st dupeMap (AVLayer n (CompItem c)) =
     (case property_of h dupeMap (name_of st c) of
        Own d \<Rightarrow> Some (AVLayer n (CompItem d))
      | Inherited \<Rightarrow> None
      | Undefined \<Rightarrow> Some (AVLayer n (CompItem c)))"
| "relink_layer h st dupeMap l = Some l"

text \<open>The relinking loop over the layers: the layers as the loop leaves them, and whether
  it came to its end; an error leaves the layers after the failing one as they were.\<close>

fun relink_layers ::
  "host \<Rightarrow> project \<Rightarrow> (string \<rightharpoonup> comp_id) \<Rightarrow> layer list \<Rightarrow> layer list \<times> bool"
where
  "relink_layers h st dupeMap [] = ([], True)"
| "relink_layers h st dupeMap (l # ls) =
     (case relink_layer h st dupeMap l of
        None \<Rightarrow> (l # ls, False)
      | Some l' \<Rightarrow>
          (case relink_layers h st dupeMap ls of (ls', ok) \<Rightarrow> (l' # ls', ok)))"

definition set_layers :: "project \<Rightarrow> comp_id \<Rightarrow> layer list \<Rightarrow> project" where
  "set_layers st c ls = st[c := \<lparr>cname = name_of st c, layers = ls\<rparr>]"

definition relink :: "host \<Rightarrow> project \<Rightarrow> (string \<rightharpoonup> comp_id) \<Rightarrow> comp_id \<Rightarrow> project \<times> bool" where
  "relink h st dupeMap dupe =
     (case relink_layers h st dupeMap (layers_of st dupe) of
        (ls, ok) \<Rightarrow> (set_layers st dupe ls, ok))"

text \<open>
  Step 3, the loop over \<^verbatim>\<open>sortedComps\<close>, and the whole of \<^verbatim>\<open>duplicateFullTree\<close>:
  the project as the call leaves it, and the \<^verbatim>\<open>dupeMap\<close> it returns, or \<open>None\<close> when
  the call ended with the error raised by \<^verbatim>\<open>replaceSource\<close>.
\<close>

fun dup_subs ::
  "host \<Rightarrow> project \<Rightarrow> string \<Rightarrow> comp_id list \<Rightarrow> (string \<rightharpoonup> comp_id)
   \<Rightarrow> project \<times> (string \<rightharpoonup> comp_id) option"
where
  "dup_subs h st langSuffix [] dupeMap = (st, Some dupeMap)"
| "dup_subs h st langSuffix (original # rest) dupeMap =
     (let dupe = length st;
          st1 = duplicate st original langSuffix;
          dupeMap1 = dupeMap(name_of st original \<mapsto> dupe)
      in case relink h st1 dupeMap1 dupe of
           (st2, ok) \<Rightarrow> if ok then dup_subs h st2 langSuffix rest dupeMap1 else (st2, None))"

definition duplicateFullTree ::
  "host \<Rightarrow> project \<Rightarrow> comp_id \<Rightarrow> string \<Rightarrow> project \<times> (string \<rightharpoonup> comp_id) option"
where
  "duplicateFullTree h st masterComp langSuffix =
     (let allSubComps = discoverAllSubComps st masterComp;
          sortedComps = sortComps h st allSubComps
      in case dup_subs h st langSuffix sortedComps Map.empty of
           (st1, None) \<Rightarrow> (st1, None)
         | (st1, Some dupeMap1) \<Rightarrow>
             (let newMaster = length st1;
                  st2 = duplicate st1 masterComp langSuffix;
                  dupeMap2 = dupeMap1(name_of st1 masterComp \<mapsto> newMaster)
              in case relink h st2 dupeMap2 newMaster of
                   (st3, ok) \<Rightarrow> (st3, if ok then Some dupeMap2 else None)))"

subsection \<open>Replacement\<close>

text \<open>
  Replacing the source of a layer that has none (a text layer, a camera) raises an
  error, which \<^verbatim>\<open>replaceFootage\<close> catches.
\<close>

definition get_layer :: "project \<Rightarrow> found \<Rightarrow> layer option" where
  "get_layer st f =
     (case f of (i, c) \<Rightarrow> if i < length (layers_of st c) then Some (layers_of st c ! i) else None)"

definition set_layer :: "project \<Rightarrow> found \<Rightarrow> layer \<Rightarrow> project" where
  "set_layer st f l = (case f of (i, c) \<Rightarrow> set_layers st c ((layers_of st c)[i := l]))"

definition replaceText :: "project \<Rightarrow> found \<Rightarrow> string \<Rightarrow> project \<times> bool" where
  "replaceText st f newText =
     (case get_layer st f of
        Some (TextLayer n t) \<Rightarrow> (set_layer st f (TextLayer n newText), True)
      | _ \<Rightarrow> (st, False))"

definition replaceFootage :: "host \<Rightarrow> project \<Rightarrow> found \<Rightarrow> string \<Rightarrow> project \<times> bool" where
  "replaceFootage h st f filePath =
     (if \<not> file_exists h filePath then (st, False)
      else if \<not> import_ok h filePath then (st, False)
      else (case get_layer st f of
              Some (AVLayer n s) \<Rightarrow> (set_layer st f (AVLayer n (FootageItem filePath)), True)
            | _ \<Rightarrow> (st, False)))"

subsection \<open>The run\<close>

record stats =
  success :: nat
  skipped :: nat
  errors :: nat

text \<open>How a run ends: without a file, with one of the alerts, with the answer no to the
  confirmation, with the summary, or with an error that the script does not catch: the
  one raised by \<^verbatim>\<open>replaceSource\<close> during a duplication, by a call of a hidden
  \<^verbatim>\<open>hasOwnProperty\<close>, or by the use of a composition that \<^verbatim>\<open>compInfo\<close> does not
  hold.\<close>

datatype outcome =
  NoFileSelected | NoLanguageColumns | CompNotFound string | Declined
  | Complete stats "string list" | RuntimeError

type_synonym comp_info = "string \<rightharpoonup> comp_id \<times> comp_id list"

type_synonym run_state = "project \<times> stats \<times> string list"

text \<open>The object \<^verbatim>\<open>masterCompNames\<close> after the loop over the rows, its properties in the
  order in which the rows set them.\<close>

definition masterCompNames_of :: "row list \<Rightarrow> (string \<times> bool) list" where
  "masterCompNames_of rs =
     fold (\<lambda>r m. AList.update (js_str (map_of r ''comp_name'')) True m) rs []"

text \<open>The loop \<^verbatim>\<open>for (var name in obj) if (obj.hasOwnProperty(name)) masterList.push(name)\<close>
  over the names that the object owns; \<open>None\<close> when the call raises an error.\<close>

fun own_names :: "(string \<rightharpoonup> 'a) \<Rightarrow> string list \<Rightarrow> string list option" where
  "own_names obj [] = Some []"
| "own_names obj (name # names) =
     (case hasOwnProperty obj name of
        None \<Rightarrow> None
      | Some own \<Rightarrow>
          (case own_names obj names of
             None \<Rightarrow> None
           | Some masterList \<Rightarrow> Some (if own then name # masterList else masterList)))"

definition masterList_of :: "row list \<Rightarrow> string list option" where
  "masterList_of rs =
     own_names (map_of (masterCompNames_of rs)) (map fst (masterCompNames_of rs))"

fun validate :: "project \<Rightarrow> string list \<Rightarrow> comp_info \<Rightarrow> string + comp_info" where
  "validate st [] compInfo = Inr compInfo"
| "validate st (nm # rest) compInfo =
     (case findComp st nm of
        None \<Rightarrow> Inl nm
      | Some c \<Rightarrow> validate st rest (compInfo(nm \<mapsto> (c, discoverAllSubComps st c))))"

definition quoted :: "string \<Rightarrow> string" where
  "quoted s = CHR 0x27 # s @ [CHR 0x27]"

text \<open>The pre-check of the layer names; its result only feeds the confirmation dialog.
  The outer \<open>None\<close> is a search that goes beyond the bound. \<open>Some None\<close> is the error
  that \<^verbatim>\<open>compInfo[checkRow["comp_name"]].comp\<close> raises when \<^verbatim>\<open>compInfo\<close> does not
  hold the composition of the row.\<close>

fun precheck ::
  "nat \<Rightarrow> project \<Rightarrow> comp_info \<Rightarrow> row list \<Rightarrow> string list option option"
where
  "precheck k st compInfo [] = Some (Some [])"
| "precheck k st compInfo (checkRow # rest) =
     (case compInfo (js_str (map_of checkRow ''comp_name'')) of
        None \<Rightarrow> Some None
      | Some (checkComp, subComps) \<Rightarrow>
          (case findLayerDeep k st checkComp (map_of checkRow ''layer_name'') of
             None \<Rightarrow> None
           | Some fnd \<Rightarrow>
               (case precheck k st compInfo rest of
                  None \<Rightarrow> None
                | Some None \<Rightarrow> Some None
                | Some (Some layerCheck) \<Rightarrow>
                    Some (Some ((if fnd = None
                                 then [quoted (js_str (map_of checkRow ''layer_name''))
                                       @ '' not found in ''
                                       @ quoted (js_str (map_of checkRow ''comp_name'')) @ '' tree'']
                                 else []) @ layerCheck)))))"

definition log_error :: "string list \<Rightarrow> string \<Rightarrow> string list" where
  "log_error errorLog msg = (if length errorLog < 20 then errorLog @ [msg] else errorLog)"

definition row_type :: "row \<Rightarrow> string" where
  "row_type r =
     toLowerCase (case map_of r ''type'' of
                    None \<Rightarrow> ''text''
                  | Some t \<Rightarrow> if t = [] then ''text'' else t)"

definition replace_layer :: "host \<Rightarrow> project \<Rightarrow> string \<Rightarrow> found \<Rightarrow> string \<Rightarrow> project \<times> bool" where
  "replace_layer h st type fnd val =
     (if type = ''footage'' \<or> type = ''image'' then replaceFootage h st fnd val
      else replaceText st fnd val)"

text \<open>The body of the loop over the rows, for one language. \<open>None\<close> is a search that
  goes beyond the bound. When \<^verbatim>\<open>allDupes[compName]\<close> is an inherited property it
  counts as true, and \<^verbatim>\<open>findLayerDeep\<close> finds no layer in it.\<close>

definition apply_row ::
  "nat \<Rightarrow> host \<Rightarrow> string \<Rightarrow> (string \<rightharpoonup> comp_id) \<Rightarrow> row \<Rightarrow> run_state \<Rightarrow> run_state option"
where
  "apply_row k h lang allDupes r s =
     (case s of (st, sts, errorLog) \<Rightarrow>
        (let compName = js_str (map_of r ''comp_name'');
             layerName = map_of r ''layer_name'';
             type = row_type r
         in case map_of r lang of
              None \<Rightarrow> Some (st, sts\<lparr>skipped := skipped sts + 1\<rparr>, errorLog)
            | Some val \<Rightarrow>
                if val = [] then Some (st, sts\<lparr>skipped := skipped sts + 1\<rparr>, errorLog)
                else
                  (case property_of h allDupes compName of
                     Undefined \<Rightarrow>
                       Some (st, sts\<lparr>errors := errors sts + 1\<rparr>,
                             log_error errorLog
                               (''['' @ lang @ ''] Comp not found: '' @ quoted compName))
                   | Inherited \<Rightarrow>
                       Some (st, sts\<lparr>errors := errors sts + 1\<rparr>,
                             log_error errorLog
                               (''['' @ lang @ ''] Layer '' @ quoted (js_str layerName)
                                @ '' not found in tree''))
                   | Own dupeMaster \<Rightarrow>
                       (case findLayerDeep k st dupeMaster layerName of
                          None \<Rightarrow> None
                        | Some None \<Rightarrow>
                            Some (st, sts\<lparr>errors := errors sts + 1\<rparr>,
                                  log_error errorLog
                                    (''['' @ lang @ ''] Layer '' @ quoted (js_str layerName)
                                     @ '' not found in tree''))
                        | Some (Some foundResult) \<Rightarrow>
                            (case replace_layer h st type foundResult val of
                               (st', ok) \<Rightarrow>
                                 if ok then Some (st', sts\<lparr>success := success sts + 1\<rparr>, errorLog)
                                 else Some (st', sts\<lparr>errors := errors sts + 1\<rparr>,
                                            log_error errorLog
                                              (''['' @ lang @ ''] Failed: ''
                                               @ quoted (js_str layerName) @ '' in ''
                                               @ quoted (name_of st (snd foundResult))
                                               @ '' ('' @ type @ '')'')))))))"

fun apply_rows ::
  "nat \<Rightarrow> host \<Rightarrow> string \<Rightarrow> (string \<rightharpoonup> comp_id) \<Rightarrow> row list \<Rightarrow> run_state \<Rightarrow> run_state option"
where
  "apply_rows k h lang allDupes [] s = Some s"
| "apply_rows k h lang allDupes (r # rs) s =
     (case apply_row k h lang allDupes r s of
        None \<Rightarrow> None
      | Some s' \<Rightarrow> apply_rows k h lang allDupes rs s')"

text \<open>
  The loop \<^verbatim>\<open>for (var key in dupeMap) if (dupeMap.hasOwnProperty(key)) allDupes[key] = dupeMap[key]\<close>.
  It runs over the properties that \<^verbatim>\<open>dupeMap\<close> owns and copies each of them. When one
  of them is named \<^verbatim>\<open>hasOwnProperty\<close> the call raises an error, whatever the key:
  the result is \<open>None\<close>.
\<close>

definition copy_own ::
  "(string \<rightharpoonup> comp_id) \<Rightarrow> (string \<rightharpoonup> comp_id) \<Rightarrow> (string \<rightharpoonup> comp_id) option"
where
  "copy_own allDupes dupeMap =
     (if dupeMap ''hasOwnProperty'' \<noteq> None then None else Some (allDupes ++ dupeMap))"

text \<open>
  The loop that duplicates the tree of every master composition, for one language; the
  own properties of each \<^verbatim>\<open>dupeMap\<close> are copied into \<^verbatim>\<open>allDupes\<close>. The result is the
  project as the loop leaves it, and \<^verbatim>\<open>allDupes\<close>, or \<open>None\<close> when an error was
  raised.
\<close>

fun duplicate_trees ::
  "host \<Rightarrow> project \<Rightarrow> comp_info \<Rightarrow> string \<Rightarrow> string list \<Rightarrow> (string \<rightharpoonup> comp_id)
   \<Rightarrow> project \<times> (string \<rightharpoonup> comp_id) option"
where
  "duplicate_trees h st compInfo langSuffix [] allDupes = (st, Some allDupes)"
| "duplicate_trees h st compInfo langSuffix (m # ms) allDupes =
     (case compInfo m of
        None \<Rightarrow> (st, None)
      | Some (mComp, subComps) \<Rightarrow>
          (case duplicateFullTree h st mComp langSuffix of
             (st', None) \<Rightarrow> (st', None)
           | (st', Some dupeMap) \<Rightarrow>
               (case copy_own allDupes dupeMap of
                  None \<Rightarrow> (st', None)
                | Some allDupes' \<Rightarrow>
                    duplicate_trees h st' compInfo langSuffix ms allDupes')))"

text \<open>
  The loop over the languages: the state it reached, and whether it came to its end
  (\<open>False\<close> when an error was raised in a duplication). \<open>None\<close> is a search that goes
  beyond the bound.
\<close>

fun run_languages ::
  "nat \<Rightarrow> host \<Rightarrow> comp_info \<Rightarrow> string list \<Rightarrow> row list \<Rightarrow> string list \<Rightarrow> run_state
   \<Rightarrow> (run_state \<times> bool) option"
where
  "run_languages k h compInfo masterList rs [] s = Some (s, True)"
| "run_languages k h compInfo masterList rs (lang # langs) s =
     (case s of (st, sts, errorLog) \<Rightarrow>
        (case duplicate_trees h st compInfo (langSuffix_of lang) masterList Map.empty of
           (st1, None) \<Rightarrow> Some ((st1, sts, errorLog), False)
         | (st1, Some allDupes) \<Rightarrow>
             (case apply_rows k h lang allDupes rs (st1, sts, errorLog) of
                None \<Rightarrow> None
              | Some s' \<Rightarrow> run_languages k h compInfo masterList rs langs s')))"

text \<open>
  \<^verbatim>\<open>main\<close>: the content of the chosen file (\<open>None\<close> when the dialog is cancelled) and
  the answer to the confirmation dialog are inputs; the result is the outcome shown to
  the user and the project as the run leaves it. \<open>None\<close> is a run in which a search
  goes beyond the bound \<open>k\<close>.
\<close>

definition main ::
  "nat \<Rightarrow> host \<Rightarrow> project \<Rightarrow> string option \<Rightarrow> bool \<Rightarrow> (outcome \<times> project) option"
where
  "main k h st csvFile confirmed =
     (case csvFile of
        None \<Rightarrow> Some (NoFileSelected, st)
      | Some csvContent \<Rightarrow>
          (let d = parseCSV csvContent;
               languages = detectLanguages (headers d)
           in if languages = [] then Some (NoLanguageColumns, st)
              else
                (case masterList_of (rows d) of
                   None \<Rightarrow> Some (RuntimeError, st)
                 | Some masterList \<Rightarrow>
                     (case validate st masterList Map.empty of
                        Inl nm \<Rightarrow> Some (CompNotFound nm, st)
                      | Inr compInfo \<Rightarrow>
                          (case precheck k st compInfo (rows d) of
                             None \<Rightarrow> None
                           | Some None \<Rightarrow> Some (RuntimeError, st)
                           | Some (Some layerCheck) \<Rightarrow>
                               if \<not> confirmed then Some (Declined, st)
                               else
                                 (case run_languages k h compInfo masterList (rows d) languages
                                         (st, \<lparr>success = 0, skipped = 0, errors = 0\<rparr>, []) of
                                    None \<Rightarrow> None
                                  | Some ((st', sts, errorLog), ok) \<Rightarrow>
                                      if ok then Some (Complete sts errorLog, st')
                                      else Some (RuntimeError, st')))))))"

section \<open>Notions used in the statements\<close>

text \<open>Writing fields as a line of the manifest: every field quoted, the quotes inside
  doubled.\<close>

definition csv_escape :: "string \<Rightarrow> string" where
  "csv_escape s = concat (map (\<lambda>c. if c = CHR 0x22 then [CHR 0x22, CHR 0x22] else [c]) s)"

definition csv_quote :: "string \<Rightarrow> string" where
  "csv_quote s = CHR 0x22 # csv_escape s @ [CHR 0x22]"

fun csv_line :: "string list \<Rightarrow> string" where
  "csv_line [] = []"
| "csv_line [f] = csv_quote f"
| "csv_line (f # g # fs) = csv_quote f @ CHR '','' # csv_line (g # fs)"

text \<open>The locale columns in the words of the specification: every header not equal to
  a reserved column name.\<close>

definition detectLocales_spec :: "string list \<Rightarrow> string list" where
  "detectLocales_spec hs = filter (\<lambda>h. h \<notin> set reservedColumns) hs"

text \<open>The error log holds one entry for each failure, up to 20.\<close>

definition log_capped :: "stats \<Rightarrow> string list \<Rightarrow> bool" where
  "log_capped sts errorLog = (length errorLog = min (errors sts) 20)"

text \<open>The compositions that the layers of a composition refer to, in layer order.\<close>

definition child_comps :: "layer list \<Rightarrow> comp_id list" where
  "child_comps ls = List.map_filter comp_source ls"

text \<open>The depth-first traversal in layer order, a composition before its children, cut
  below depth \<open>k\<close>; and the first layer of the given name in a list of compositions,
  with the composition that owns it.\<close>

fun preorder :: "nat \<Rightarrow> project \<Rightarrow> comp_id \<Rightarrow> comp_id list" where
  "preorder 0 st c = []"
| "preorder (Suc k) st c = c # concat (map (preorder k st) (child_comps (layers_of st c)))"

fun first_match :: "project \<Rightarrow> string option \<Rightarrow> comp_id list \<Rightarrow> found option" where
  "first_match st nm [] = None"
| "first_match st nm (c # cs) =
     (case find_layer (layers_of st c) 0 nm of
        Some i \<Rightarrow> Some (i, c)
      | None \<Rightarrow> first_match st nm cs)"

text \<open>A project has no cycle when a rank decreases along every reference.\<close>

definition acyclic_by :: "project \<Rightarrow> (comp_id \<Rightarrow> nat) \<Rightarrow> bool" where
  "acyclic_by st rank =
     (\<forall>c \<in> set [0..<length st]. \<forall>d \<in> set (child_comps (layers_of st c)). rank d < rank c)"

text \<open>The search in the words of the specification: the shallow pass matches leaves
  only, that is layers that do not refer to a composition.\<close>

fun is_leaf :: "layer \<Rightarrow> bool" where
  "is_leaf l = (comp_source l = None)"

fun find_leaf :: "layer list \<Rightarrow> nat \<Rightarrow> string option \<Rightarrow> nat option" where
  "find_leaf [] i nm = None"
| "find_leaf (l # ls) i nm =
     (if is_leaf l \<and> Some (layer_name l) = nm then Some i else find_leaf ls (Suc i) nm)"

fun findByName_spec :: "nat \<Rightarrow> project \<Rightarrow> comp_id \<Rightarrow> string option \<Rightarrow> found option option"
  and findByName_children :: "nat \<Rightarrow> project \<Rightarrow> layer list \<Rightarrow> string option \<Rightarrow> found option option"
where
  "findByName_spec 0 st c nm = None"
| "findByName_spec (Suc k) st c nm =
     (case find_leaf (layers_of st c) 0 nm of
        Some i \<Rightarrow> Some (Some (i, c))
      | None \<Rightarrow> findByName_children k st (layers_of st c) nm)"
| "findByName_children k st [] nm = Some None"
| "findByName_children k st (l # ls) nm =
     (case comp_source l of
        None \<Rightarrow> findByName_children k st ls nm
      | Some sub \<Rightarrow>
          (case findByName_spec k st sub nm of
             None \<Rightarrow> None
           | Some (Some r) \<Rightarrow> Some (Some r)
           | Some None \<Rightarrow> findByName_children k st ls nm))"

text \<open>The layer after a relinking that raised no error.\<close>

fun relinked :: "project \<Rightarrow> (string \<rightharpoonup> comp_id) \<Rightarrow> layer \<Rightarrow> layer" where
  "relinked st dupeMap (AVLayer n (CompItem c)) =
     (case dupeMap (name_of st c) of
        Some d \<Rightarrow> AVLayer n (CompItem d)
      | None \<Rightarrow> AVLayer n (CompItem c))"
| "relinked st dupeMap l = l"

text \<open>Every composition of the list comes after compositions that bear the names of its
  children in the set, or the names are in \<open>seen\<close> from the start.\<close>

fun ready :: "project \<Rightarrow> comp_id list \<Rightarrow> string set \<Rightarrow> comp_id list \<Rightarrow> bool" where
  "ready st all seen [] = True"
| "ready st all seen (c # cs) =
     ((\<forall>s \<in> comp_ids (layers_of st c). s \<in> set all \<longrightarrow> name_of st s \<in> seen)
      \<and> ready st all (insert (name_of st c) seen) cs)"

text \<open>The invariant of the ordering loop: the names that \<^verbatim>\<open>processed\<close> owns are the
  names of the ordered compositions, which are compositions of the set, of distinct
  names, none of them inherited.\<close>

definition sort_inv :: "host \<Rightarrow> project \<Rightarrow> comp_id list \<Rightarrow> sort_state \<Rightarrow> bool" where
  "sort_inv h st all s =
     (case s of (pr, srt) \<Rightarrow>
        set srt \<subseteq> set all \<and> (\<forall>nm. pr nm = (nm \<in> name_of st ` set srt))
        \<and> distinct (map (name_of st) srt) \<and> (\<forall>c \<in> set srt. \<not> inherited h (name_of st c))
        \<and> ready st all (Collect (inherited h)) srt)"

text \<open>The compositions of the set that the loop has still to order, and the absence of
  cycles inside a set of compositions.\<close>

definition unprocessed ::
  "host \<Rightarrow> project \<Rightarrow> comp_id list \<Rightarrow> (string \<Rightarrow> bool) \<Rightarrow> comp_id set"
where
  "unprocessed h st all pr = {c \<in> set all. \<not> flag h pr (name_of st c)}"

definition acyclic_in :: "project \<Rightarrow> comp_id list \<Rightarrow> (comp_id \<Rightarrow> nat) \<Rightarrow> bool" where
  "acyclic_in st all rank =
     (\<forall>c \<in> set all. \<forall>d \<in> comp_ids (layers_of st c). d \<in> set all \<longrightarrow> rank d < rank c)"

text \<open>From position \<open>n\<close> on, the compositions refer only to compositions from
  position \<open>n\<close> on; and a project that agrees with another on the layers and names of
  the compositions below \<open>n\<close>.\<close>

definition new_closed :: "nat \<Rightarrow> project \<Rightarrow> bool" where
  "new_closed n st = (\<forall>d \<ge> n. comp_ids (layers_of st d) \<subseteq> {n..})"

definition agree :: "nat \<Rightarrow> project \<Rightarrow> project \<Rightarrow> bool" where
  "agree n S st = (n \<le> length st \<and>
     (\<forall>c < n. layers_of st c = layers_of S c \<and> name_of st c = name_of S c))"

text \<open>Below position \<open>n\<close>, the compositions refer only to compositions below \<open>n\<close>, and
  a rank decreases along their references.\<close>

definition orig_closed :: "nat \<Rightarrow> project \<Rightarrow> bool" where
  "orig_closed n st = (\<forall>c < n. comp_ids (layers_of st c) \<subseteq> {..<n})"

definition acyclic_orig :: "nat \<Rightarrow> project \<Rightarrow> (comp_id \<Rightarrow> nat) \<Rightarrow> bool" where
  "acyclic_orig n st rank = (\<forall>c < n. \<forall>d \<in> comp_ids (layers_of st c). rank d < rank c)"

text \<open>The invariant of a run that started on \<open>st0\<close>: the compositions of \<open>st0\<close>
  are still there, unchanged, and the later ones refer only to later ones.\<close>

definition inv :: "project \<Rightarrow> project \<Rightarrow> bool" where
  "inv st0 st = (length st0 \<le> length st \<and> take (length st0) st = st0
                 \<and> new_closed (length st0) st)"

text \<open>A project is well formed when every reference to a composition is to a composition
  of the project.\<close>

definition wf_project :: "project \<Rightarrow> bool" where
  "wf_project st =
     (\<forall>c \<in> set [0..<length st]. \<forall>d \<in> set (child_comps (layers_of st c)). d < length st)"

text \<open>The references between the compositions of a set.\<close>

definition child_rel :: "project \<Rightarrow> comp_id list \<Rightarrow> (comp_id \<times> comp_id) set" where
  "child_rel st all = {(c, d). c \<in> set all \<and> d \<in> set all \<and> d \<in> set (child_comps (layers_of st c))}"

text \<open>\<open>d\<close> occurs in the list before the first occurrence of \<open>c\<close>.\<close>

definition before :: "comp_id list \<Rightarrow> comp_id \<Rightarrow> comp_id \<Rightarrow> bool" where
  "before xs d c = (d \<in> set (takeWhile (\<lambda>y. y \<noteq> c) xs))"

text \<open>A rank below \<open>k\<close> that decreases along every reference of a well-formed
  project.\<close>

definition ranked :: "nat \<Rightarrow> project \<Rightarrow> (comp_id \<Rightarrow> nat) \<Rightarrow> bool" where
  "ranked k st rk = (wf_project st \<and> acyclic_by st rk \<and> (\<forall>c. rk c < k))"

section \<open>Example projects and manifests\<close>

text \<open>The scenario of the specification: \<open>Main\<close> holds the sub-composition \<open>Sub\<close>,
  which holds the text layer \<open>Headline\<close>; the manifest has one row, with a value for
  \<open>en\<close> and none for \<open>fr\<close>.\<close>

definition demo_project :: project where
  "demo_project =
     [\<lparr>cname = ''Main'', layers = [AVLayer ''Sub'' (CompItem 1)]\<rparr>,
      \<lparr>cname = ''Sub'', layers = [TextLayer ''Headline'' ''Hello'']\<rparr>]"

definition demo_manifest :: string where
  "demo_manifest = ''comp_name,layer_name,type,en,fr'' @ CHR 0x0A # ''Main,Headline,text,Hi,''"

definition demo_row :: row where
  "demo_row = [(''comp_name'', ''Main''), (''layer_name'', ''Headline''), (''type'', ''text''),
               (''en'', ''Hi''), (''fr'', [])]"

text \<open>The properties of \<^verbatim>\<open>Object.prototype\<close> in ECMAScript 3, and \<^verbatim>\<open>__proto__\<close>; a
  host with this engine on which no file exists.\<close>

definition objectPrototype :: "string list" where
  "objectPrototype =
     [''constructor'', ''toString'', ''toLocaleString'', ''valueOf'', ''hasOwnProperty'',
      ''isPrototypeOf'', ''propertyIsEnumerable'', ''__proto__'']"

definition no_files :: host where
  "no_files = \<lparr>file_exists = (\<lambda>p. False), import_ok = (\<lambda>p. False),
                inherited = (\<lambda>nm. nm \<in> set objectPrototype)\<rparr>"

definition no_stats :: stats where
  "no_stats = \<lparr>success = 0, skipped = 0, errors = 0\<rparr>"

text \<open>A row of an unknown type, and the project of the scenario once duplicated for
  \<open>en\<close>.\<close>

definition asset_row :: row where
  "asset_row = [(''comp_name'', ''Main''), (''layer_name'', ''Headline''), (''type'', ''Asset''),
                (''en'', ''Hi'')]"

definition demo_project_en :: project where
  "demo_project_en = demo_project @
     [\<lparr>cname = ''Sub_en'', layers = [TextLayer ''Headline'' ''Hello'']\<rparr>,
      \<lparr>cname = ''Main_en'', layers = [AVLayer ''Sub'' (CompItem 2)]\<rparr>]"

text \<open>A row that names a layer the tree does not hold, and a row whose value is the
  path of a footage file.\<close>

definition title_row :: row where
  "title_row = [(''comp_name'', ''Main''), (''layer_name'', ''Title''), (''type'', ''text''),
                (''en'', ''Hi'')]"

definition footage_row :: row where
  "footage_row = [(''comp_name'', ''Main''), (''layer_name'', ''Headline''),
                  (''type'', ''Footage''), (''en'', ''logo.png'')]"

text \<open>Two sub-compositions that both hold a layer named \<open>Headline\<close>.\<close>

definition twin_project :: project where
  "twin_project =
     [\<lparr>cname = ''Main'', layers = [AVLayer ''Left'' (CompItem 1), AVLayer ''Right'' (CompItem 2)]\<rparr>,
      \<lparr>cname = ''Left'', layers = [OtherLayer ''Camera'', TextLayer ''Headline'' ''l'']\<rparr>,
      \<lparr>cname = ''Right'', layers = [TextLayer ''Headline'' ''r'']\<rparr>]"

text \<open>A layer of the root that refers to a composition and bears the name of a text
  layer inside that composition.\<close>

definition nested_name_project :: project where
  "nested_name_project =
     [\<lparr>cname = ''Main'', layers = [AVLayer ''Headline'' (CompItem 1)]\<rparr>,
      \<lparr>cname = ''Sub'', layers = [TextLayer ''Headline'' ''Hello'']\<rparr>]"

text \<open>A project with a cycle: \<open>M\<close> holds \<open>A\<close>, \<open>A\<close> holds \<open>B\<close>, and \<open>B\<close> holds \<open>A\<close>
  and a text layer.\<close>

definition cyclic_project :: project where
  "cyclic_project =
     [\<lparr>cname = ''M'', layers = [AVLayer ''A'' (CompItem 1)]\<rparr>,
      \<lparr>cname = ''A'', layers = [AVLayer ''B'' (CompItem 2)]\<rparr>,
      \<lparr>cname = ''B'', layers = [AVLayer ''A'' (CompItem 1), TextLayer ''T'' ''x'']\<rparr>]"

definition cyclic_manifest :: string where
  "cyclic_manifest = ''comp_name,layer_name,type,en'' @ CHR 0x0A # ''M,T,text,Hi''"

text \<open>A project in which the root lies on the cycle: \<open>M\<close> holds \<open>A\<close>, and \<open>A\<close> holds
  \<open>M\<close>.\<close>

definition root_cycle_project :: project where
  "root_cycle_project =
     [\<lparr>cname = ''M'', layers = [AVLayer ''A'' (CompItem 1)]\<rparr>,
      \<lparr>cname = ''A'', layers = [AVLayer ''M'' (CompItem 0), TextLayer ''T'' ''x'']\<rparr>]"

text \<open>A project without a cycle in which a sub-composition bears a name that every
  object inherits.\<close>

definition inherited_name_project :: project where
  "inherited_name_project =
     [\<lparr>cname = ''M'', layers = [AVLayer ''s'' (CompItem 1)]\<rparr>,
      \<lparr>cname = ''constructor'', layers = [TextLayer ''T'' ''x'']\<rparr>]"

text \<open>A project with a cycle through a composition whose name every object inherits.\<close>

definition inherited_cycle_project :: project where
  "inherited_cycle_project =
     [\<lparr>cname = ''M'', layers = [AVLayer ''A'' (CompItem 1)]\<rparr>,
      \<lparr>cname = ''A'', layers = [AVLayer ''c'' (CompItem 2)]\<rparr>,
      \<lparr>cname = ''constructor'', layers = [AVLayer ''A'' (CompItem 1)]\<rparr>]"

text \<open>A project without a cycle in which two compositions of the tree of \<open>M\<close> bear the
  same name.\<close>

definition same_name_project :: project where
  "same_name_project =
     [\<lparr>cname = ''M'', layers = [AVLayer ''a'' (CompItem 1), AVLayer ''b'' (CompItem 2)]\<rparr>,
      \<lparr>cname = ''X'', layers = [TextLayer ''T'' ''one'']\<rparr>,
      \<lparr>cname = ''X'', layers = [TextLayer ''U'' ''two'']\<rparr>]"

section \<open>Properties of the manifest model\<close>

lemma isReserved_iff: "isReserved h rs = (h \<in> set rs)"
  by (induction rs) auto

lemma detectLanguages_filter:
  "detectLanguages hs = filter (\<lambda>h. h \<noteq> [] \<and> toLowerCase h \<notin> set reservedColumns) hs"
  by (induction hs) (auto simp: isReserved_iff)

lemma parse_loop_open:
  "rest \<noteq> [] \<Longrightarrow> parse_loop (CHR 0x22 # rest) cur False res = parse_loop rest cur True res"
  by (cases rest) auto

lemma parse_loop_quoted:
  "rest = [] \<or> hd rest \<noteq> CHR 0x22 \<Longrightarrow>
   parse_loop (csv_escape s @ CHR 0x22 # rest) cur True res = parse_loop rest (cur @ s) False res"
proof (induction s arbitrary: cur)
  case Nil
  then show ?case by (cases rest) (auto simp: csv_escape_def)
next
  case (Cons c s)
  then show ?case by (auto simp: csv_escape_def)
qed

lemma parse_loop_csv_quote:
  "rest = [] \<or> hd rest \<noteq> CHR 0x22 \<Longrightarrow>
   parse_loop (csv_quote s @ rest) cur False res = parse_loop rest (cur @ s) False res"
  unfolding csv_quote_def
  using parse_loop_quoted[of rest s cur res] parse_loop_open[of "csv_escape s @ CHR 0x22 # rest" cur res]
  by simp

lemma parse_loop_csv_line:
  "fs \<noteq> [] \<Longrightarrow> parse_loop (csv_line fs) [] False res = res @ fs"
proof (induction fs arbitrary: res rule: csv_line.induct)
  case 1
  then show ?case by simp
next
  case (2 f)
  show ?case using parse_loop_csv_quote[of "[]" f "[]" res] by simp
next
  case (3 f g fs)
  have "parse_loop (csv_line (f # g # fs)) [] False res
        = parse_loop (CHR '','' # csv_line (g # fs)) f False res"
    using parse_loop_csv_quote[of "CHR '','' # csv_line (g # fs)" f "[]" res]
    by simp
  also have "\<dots> = parse_loop (csv_line (g # fs)) [] False (res @ [f])" by simp
  also have "\<dots> = res @ f # g # fs" using 3 by simp
  finally show ?case .
qed

lemma parseCSVLine_csv_line: "fs \<noteq> [] \<Longrightarrow> parseCSVLine (csv_line fs) = fs"
  by (simp add: parseCSVLine_def parse_loop_csv_line)

lemma split_lines_LF_Cons: "split_lines (CHR 0x0A # b) = [] # split_lines b"
  by (cases b) auto

lemma split_lines_no_LF: "CHR 0x0A \<notin> set t \<Longrightarrow> split_lines t = [t]"
  by (induction t rule: split_lines.induct) auto

lemma split_lines_LF:
  "CHR 0x0A \<notin> set a \<Longrightarrow> a = [] \<or> last a \<noteq> CHR 0x0D \<Longrightarrow>
   split_lines (a @ CHR 0x0A # b) = a # split_lines b"
proof (induction a rule: split_lines.induct)
  case 1
  then show ?case by (simp add: split_lines_LF_Cons)
next
  case (2 c)
  then show ?case by (simp add: split_lines_LF_Cons)
next
  case (3 c c2 cs)
  then show ?case by auto
qed

lemma set_csv_escape: "set (csv_escape s) = set s"
  by (induction s) (auto simp: csv_escape_def)

lemma set_csv_line: "set (csv_line fs) \<subseteq> \<Union> (set ` set fs) \<union> {CHR 0x22, CHR '',''}"
  by (induction fs rule: csv_line.induct) (auto simp: csv_quote_def set_csv_escape)

lemma csv_line_ends: "fs \<noteq> [] \<Longrightarrow> hd (csv_line fs) = CHR 0x22 \<and> last (csv_line fs) = CHR 0x22 \<and> csv_line fs \<noteq> []"
  by (induction fs rule: csv_line.induct) (auto simp: csv_quote_def)

lemma trim_id: "s \<noteq> [] \<Longrightarrow> \<not> is_space (hd s) \<Longrightarrow> \<not> is_space (last s) \<Longrightarrow> trim s = s"
proof -
  assume a: "s \<noteq> []" "\<not> is_space (hd s)" "\<not> is_space (last s)"
  then have 1: "dropWhile is_space s = s" by (cases s) auto
  from a have "rev s \<noteq> []" "\<not> is_space (hd (rev s))" by (auto simp: hd_rev)
  then have "dropWhile is_space (rev s) = rev s" by (cases "rev s") auto
  with 1 show ?thesis by (simp add: trim_def)
qed

lemma make_row_zip:
  "length vs = length hs \<Longrightarrow> distinct hs \<Longrightarrow> set hs \<inter> fst ` set r = {} \<Longrightarrow>
   make_row hs vs r = r @ zip hs (map trim vs)"
proof (induction hs arbitrary: vs r)
  case Nil
  then show ?case by simp
next
  case (Cons h hs)
  then obtain v vs' where vs: "vs = v # vs'" by (cases vs) auto
  have upd: "AList.update h (trim v) r = r @ [(h, trim v)]"
    using Cons.prems(3) by (induction r) auto
  have "make_row hs vs' (r @ [(h, trim v)]) = (r @ [(h, trim v)]) @ zip hs (map trim vs')"
    using Cons.prems vs by (intro Cons.IH) auto
  then show ?case using vs upd by simp
qed

lemma make_row_keys: "fst ` set (make_row hs vs r) = fst ` set r \<union> set hs"
  by (induction hs arbitrary: vs r) (auto simp: dom_update)

lemma parse_rows_keys: "r \<in> set (parse_rows hs ls) \<Longrightarrow> fst ` set r = set hs"
proof (induction ls)
  case Nil
  then show ?case by simp
next
  case (Cons l ls)
  show ?case
  proof (cases "r = make_row hs (parseCSVLine (trim l)) []")
    case True
    then show ?thesis by (simp add: make_row_keys)
  next
    case False
    with Cons.prems have "r \<in> set (parse_rows hs ls)" by (auto simp: Let_def split: if_splits)
    then show ?thesis by (rule Cons.IH)
  qed
qed

lemma parseCSV_row_owns_headers:
  assumes "r \<in> set (rows (parseCSV csv))" "key \<in> set (headers (parseCSV csv))"
  shows "map_of r key \<noteq> None"
proof -
  from assms have "key \<in> fst ` set r"
    by (auto simp: parseCSV_def Let_def dest: parse_rows_keys split: list.splits)
  then show ?thesis by (simp add: map_of_eq_None_iff)
qed

lemma parseCSV_row_owns_languages:
  assumes "r \<in> set (rows (parseCSV csv))" "lang \<in> set (detectLanguages (headers (parseCSV csv)))"
  shows "map_of r lang \<noteq> None"
  using assms parseCSV_row_owns_headers[of r csv lang] by (simp add: detectLanguages_filter)

text \<open>
  Claim C6, amended. Within a line of the manifest the parser respects quoted fields: a
  line of quoted fields, which may contain the delimiter, doubled quote characters and
  any other character, parses to exactly these fields; a manifest of a header line and
  one row of quoted fields without a line feed parses to one row that binds every
  header to its field, trimmed. A line feed inside a quoted field is not respected: the
  text is cut into lines before the quotes are read.
\<close>

theorem parseCSV_quoted_fields:
  assumes "hs \<noteq> []" "length fs = length hs" "distinct (map trim hs)"
    and "\<forall>x \<in> set hs. CHR 0x0A \<notin> set x" "\<forall>x \<in> set fs. CHR 0x0A \<notin> set x"
  shows "parseCSVLine (csv_line fs) = fs
       \<and> parseCSV (csv_line hs @ CHR 0x0A # csv_line fs)
         = \<lparr>headers = map trim hs, rows = [zip (map trim hs) (map trim fs)]\<rparr>"
proof -
  have fs: "fs \<noteq> []" using assms by auto
  have q: "\<not> is_space (CHR 0x22)" by (simp add: is_space_def)
  have "CHR 0x0A \<notin> set (csv_line hs)" using set_csv_line[of hs] assms(4) by auto
  moreover have "last (csv_line hs) \<noteq> CHR 0x0D" using csv_line_ends[OF assms(1)] by simp
  ultimately have "split_lines (csv_line hs @ CHR 0x0A # csv_line fs)
      = csv_line hs # split_lines (csv_line fs)"
    by (intro split_lines_LF) auto
  moreover have "CHR 0x0A \<notin> set (csv_line fs)" using set_csv_line[of fs] assms(5) by auto
  then have "split_lines (csv_line fs) = [csv_line fs]" by (rule split_lines_no_LF)
  moreover have "trim (csv_line fs) = csv_line fs"
    using csv_line_ends[OF fs] q by (intro trim_id) auto
  moreover have "make_row (map trim hs) fs [] = [] @ zip (map trim hs) (map trim fs)"
    using assms by (intro make_row_zip) auto
  ultimately have "parseCSV (csv_line hs @ CHR 0x0A # csv_line fs)
         = \<lparr>headers = map trim hs, rows = [zip (map trim hs) (map trim fs)]\<rparr>"
    using csv_line_ends[OF fs]
    by (simp add: parseCSV_def parseCSVLine_csv_line assms(1) fs Let_def)
  then show ?thesis by (simp add: parseCSVLine_csv_line fs)
qed

theorem parseCSV_quoted_fields_witness:
  "parseCSVLine (csv_line [''Main'', ''He said '' @ [CHR 0x22] @ ''hi'' @ [CHR 0x22] @ '', ok''])
     = [''Main'', ''He said '' @ [CHR 0x22] @ ''hi'' @ [CHR 0x22] @ '', ok'']
   \<and> parseCSV (csv_line [''comp_name'', ''en'']
        @ CHR 0x0A # csv_line [''Main'', ''He said '' @ [CHR 0x22] @ ''hi'' @ [CHR 0x22] @ '', ok''])
     = \<lparr>headers = [''comp_name'', ''en''],
        rows = [[(''comp_name'', ''Main''),
                 (''en'', ''He said '' @ [CHR 0x22] @ ''hi'' @ [CHR 0x22] @ '', ok'')]]\<rparr>"
  using parseCSV_quoted_fields[of "[''comp_name'', ''en'']"
      "[''Main'', ''He said '' @ [CHR 0x22] @ ''hi'' @ [CHR 0x22] @ '', ok'']"]
  by (simp add: trim_def is_space_def)

text \<open>
  Claim C6 as stated fails: a quoted field with a comma, a doubled quote and a line feed
  does not come back as one field.
\<close>

theorem parseCSV_line_break_counterexample:
  "rows (parseCSV (''k'' @ CHR 0x0A
      # csv_quote (''He said '' @ [CHR 0x22] @ ''hi'' @ [CHR 0x22] @ '','' @ [CHR 0x0A] @ ''x'')))
   \<noteq> [[(''k'', ''He said '' @ [CHR 0x22] @ ''hi'' @ [CHR 0x22] @ '','' @ [CHR 0x0A] @ ''x'')]]"
  by (simp add: parseCSV_def csv_quote_def csv_escape_def parseCSVLine_def trim_def is_space_def)

text \<open>
  Claim C7, amended. \<^verbatim>\<open>detectLanguages\<close> returns, in the order of the header row, exactly
  the headers that are not empty and whose lower-case form is not a reserved column
  name; when there is no such header the run ends with the message that no language
  column was found, and the project is as it was.
\<close>

theorem detectLanguages_nonreserved:
  "detectLanguages hs = filter (\<lambda>h. h \<noteq> [] \<and> toLowerCase h \<notin> set reservedColumns) hs
   \<and> (detectLanguages (headers (parseCSV csv)) = []
        \<longrightarrow> main k h st (Some csv) confirmed = Some (NoLanguageColumns, st))"
  by (simp add: detectLanguages_filter main_def Let_def)

theorem detectLanguages_nonreserved_witness:
  "detectLanguages (headers (parseCSV ''comp_name,Layer_Name,TYPE,'')) = []
   \<and> main 0 \<lparr>file_exists = (\<lambda>p. False), import_ok = (\<lambda>p. False),
          inherited = (\<lambda>nm. nm \<in> set objectPrototype)\<rparr>
        [\<lparr>cname = ''Main'', layers = [TextLayer ''Headline'' ''Hello'']\<rparr>]
        (Some ''comp_name,Layer_Name,TYPE,'') True
     = Some (NoLanguageColumns, [\<lparr>cname = ''Main'', layers = [TextLayer ''Headline'' ''Hello'']\<rparr>])"
proof -
  have e: "detectLanguages (headers (parseCSV ''comp_name,Layer_Name,TYPE,'')) = []"
    by (simp add: parseCSV_def parseCSVLine_def trim_def is_space_def toLowerCase_def
        lower_char_def reservedColumns_def)
  from e detectLanguages_nonreserved[of "[]" "''comp_name,Layer_Name,TYPE,''" 0
      "\<lparr>file_exists = (\<lambda>p. False), import_ok = (\<lambda>p. False),
          inherited = (\<lambda>nm. nm \<in> set objectPrototype)\<rparr>"
      "[\<lparr>cname = ''Main'', layers = [TextLayer ''Headline'' ''Hello'']\<rparr>]" True]
  show ?thesis by blast
qed

text \<open>
  Claim C7 as stated fails: a header that is a reserved name in another case, and an
  empty header, are not reserved names and yet are not returned.
\<close>

theorem detectLanguages_counterexample:
  "detectLanguages [''comp_name'', ''Type'', '''', ''en'']
   \<noteq> detectLocales_spec [''comp_name'', ''Type'', '''', ''en'']"
  by (simp add: detectLocales_spec_def reservedColumns_def toLowerCase_def lower_char_def)

section \<open>Properties of the substitution loop\<close>

lemma apply_row_failure_log:
  assumes "apply_row k h lang allDupes r (st, sts, errorLog) = Some (st', sts', errorLog')"
  shows "(errors sts' = errors sts \<and> errorLog' = errorLog)
       \<or> (errors sts' = errors sts + 1
          \<and> (if length errorLog < 20 then \<exists>msg. errorLog' = errorLog @ [msg]
              else errorLog' = errorLog))"
  using assms
  by (auto simp: apply_row_def Let_def log_error_def
      split: option.splits if_splits prod.splits property.splits)

lemma apply_row_log_capped:
  assumes "apply_row k h lang allDupes r (st, sts, errorLog) = Some (st', sts', errorLog')"
    and "log_capped sts errorLog"
  shows "log_capped sts' errorLog'"
  using apply_row_failure_log[OF assms(1)] assms(2)
  by (auto simp: log_capped_def split: if_splits)

lemma apply_rows_log_capped:
  "apply_rows k h lang allDupes rs (st, sts, errorLog) = Some (st', sts', errorLog') \<Longrightarrow>
   log_capped sts errorLog \<Longrightarrow> log_capped sts' errorLog'"
proof (induction rs arbitrary: st sts errorLog)
  case Nil
  then show ?case by simp
next
  case (Cons r rs)
  from Cons.prems(1) obtain st1 sts1 log1 where
    1: "apply_row k h lang allDupes r (st, sts, errorLog) = Some (st1, sts1, log1)"
    and 2: "apply_rows k h lang allDupes rs (st1, sts1, log1) = Some (st', sts', errorLog')"
    by (auto split: option.splits)
  from apply_row_log_capped[OF 1 Cons.prems(2)] Cons.IH[OF 2] show ?case by blast
qed

lemma run_languages_log_capped:
  "run_languages k h compInfo masterList rs langs (st, sts, errorLog)
     = Some ((st', sts', errorLog'), ok) \<Longrightarrow>
   log_capped sts errorLog \<Longrightarrow> log_capped sts' errorLog'"
proof (induction langs arbitrary: st sts errorLog)
  case Nil
  then show ?case by simp
next
  case (Cons lang langs)
  obtain st1 res where d: "duplicate_trees h st compInfo (langSuffix_of lang) masterList Map.empty
      = (st1, res)"
    by (cases "duplicate_trees h st compInfo (langSuffix_of lang) masterList Map.empty")
  show ?case
  proof (cases res)
    case None
    with Cons.prems d show ?thesis by simp
  next
    case (Some allDupes)
    with Cons.prems(1) d obtain st2 sts2 log2 where
      1: "apply_rows k h lang allDupes rs (st1, sts, errorLog) = Some (st2, sts2, log2)"
      and 2: "run_languages k h compInfo masterList rs langs (st2, sts2, log2)
          = Some ((st', sts', errorLog'), ok)"
      by (auto split: option.splits)
    from apply_rows_log_capped[OF 1 Cons.prems(2)] Cons.IH[OF 2] show ?thesis by blast
  qed
qed

lemma main_Complete:
  assumes "main k h st csvFile confirmed = Some (Complete sts errorLog, st')"
  obtains csv masterList compInfo where "csvFile = Some csv"
    "masterList_of (rows (parseCSV csv)) = Some masterList"
    "validate st masterList Map.empty = Inr compInfo"
    "run_languages k h compInfo masterList (rows (parseCSV csv))
       (detectLanguages (headers (parseCSV csv)))
       (st, \<lparr>success = 0, skipped = 0, errors = 0\<rparr>, []) = Some ((st', sts, errorLog), True)"
  using assms
  by (auto simp: main_def Let_def split: option.splits if_splits sum.splits)

lemma main_log_capped:
  assumes "main k h st csvFile confirmed = Some (Complete sts errorLog, st')"
  shows "length errorLog = min (errors sts) 20"
proof -
  from assms obtain csv masterList compInfo where
    "run_languages k h compInfo masterList (rows (parseCSV csv))
       (detectLanguages (headers (parseCSV csv)))
       (st, \<lparr>success = 0, skipped = 0, errors = 0\<rparr>, []) = Some ((st', sts, errorLog), True)"
    by (rule main_Complete)
  from run_languages_log_capped[OF this] show ?thesis by (simp add: log_capped_def)
qed

lemma row_type_default:
  "map_of r ''type'' = None \<or> map_of r ''type'' = Some [] \<Longrightarrow> row_type r = ''text''"
  by (auto simp: row_type_def toLowerCase_def lower_char_def)

lemma demo_run:
  "main 2 no_files demo_project (Some demo_manifest) True =
     Some (Complete \<lparr>success = 1, skipped = 1, errors = 0\<rparr> [],
       [\<lparr>cname = ''Main'', layers = [AVLayer ''Sub'' (CompItem 1)]\<rparr>,
        \<lparr>cname = ''Sub'', layers = [TextLayer ''Headline'' ''Hello'']\<rparr>,
        \<lparr>cname = ''Sub_en'', layers = [TextLayer ''Headline'' ''Hi'']\<rparr>,
        \<lparr>cname = ''Main_en'', layers = [AVLayer ''Sub'' (CompItem 2)]\<rparr>,
        \<lparr>cname = ''Sub_fr'', layers = [TextLayer ''Headline'' ''Hello'']\<rparr>,
        \<lparr>cname = ''Main_fr'', layers = [AVLayer ''Sub'' (CompItem 4)]\<rparr>])"
  by code_simp

text \<open>
  Claim C8. In the loop over the rows, a row whose value for the language is absent or
  empty adds one to \<open>skipped\<close> and changes nothing else: the project, with every layer
  of it, the other counts and the error log are as before. No search is made, so this
  holds for every bound on the search.
\<close>

theorem apply_row_skips_empty_value:
  "map_of r lang = None \<or> map_of r lang = Some [] \<Longrightarrow>
   apply_row k h lang allDupes r (st, sts, errorLog)
     = Some (st, sts\<lparr>skipped := skipped sts + 1\<rparr>, errorLog)"
  by (auto simp: apply_row_def Let_def)

theorem apply_row_skips_empty_value_witness:
  "map_of demo_row ''fr'' = Some []
   \<and> apply_row 0 no_files ''fr'' Map.empty demo_row (demo_project, no_stats, [])
     = Some (demo_project, \<lparr>success = 0, skipped = 1, errors = 0\<rparr>, [])"
proof -
  have v: "map_of demo_row ''fr'' = Some []" by (simp add: demo_row_def)
  then have "map_of demo_row ''fr'' = None \<or> map_of demo_row ''fr'' = Some []" by simp
  from apply_row_skips_empty_value[OF this, of 0 no_files Map.empty demo_project no_stats "[]"] v
  show ?thesis by (simp add: no_stats_def)
qed

lemma apply_row_no_duplicate:
  assumes "map_of r lang = Some val" "val \<noteq> []"
    and "allDupes (js_str (map_of r ''comp_name'')) = None"
  shows "\<exists>msg. apply_row k h lang allDupes r (st, sts, errorLog)
           = Some (st, sts\<lparr>errors := errors sts + 1\<rparr>,
                   if length errorLog < 20 then errorLog @ [msg] else errorLog)"
  using assms by (auto simp: apply_row_def Let_def property_of_def log_error_def)

lemma apply_row_layer_not_found:
  assumes "map_of r lang = Some val" "val \<noteq> []"
    and "allDupes (js_str (map_of r ''comp_name'')) = Some dupeMaster"
    and "findLayerDeep k st dupeMaster (map_of r ''layer_name'') = Some None"
  shows "\<exists>msg. apply_row k h lang allDupes r (st, sts, errorLog)
           = Some (st, sts\<lparr>errors := errors sts + 1\<rparr>,
                   if length errorLog < 20 then errorLog @ [msg] else errorLog)"
  using assms by (auto simp: apply_row_def Let_def property_of_def log_error_def)

lemma apply_row_replacement:
  assumes "map_of r lang = Some val" "val \<noteq> []"
    and "allDupes (js_str (map_of r ''comp_name'')) = Some dupeMaster"
    and "findLayerDeep k st dupeMaster (map_of r ''layer_name'') = Some (Some fnd)"
    and "replace_layer h st (row_type r) fnd val = (st2, ok)"
  shows "\<exists>msg. apply_row k h lang allDupes r (st, sts, errorLog)
           = (if ok then Some (st2, sts\<lparr>success := success sts + 1\<rparr>, errorLog)
              else Some (st2, sts\<lparr>errors := errors sts + 1\<rparr>,
                         if length errorLog < 20 then errorLog @ [msg] else errorLog))"
  using assms by (auto simp: apply_row_def Let_def property_of_def log_error_def)

text \<open>
  Claim C9. A substitution fails in three ways: there is no duplicate for the
  composition of the row, the duplicated tree holds no layer of the name of the row, or
  the replacement returns false. Each of them adds one to the error count, leaves the
  other counts, and puts one entry into the error log when the log holds fewer than 20
  entries and none otherwise; a replacement that returns true leaves the error count and
  the log as they were. So a row either leaves the error count and the log as they
  were, or it adds one to the count and at most one entry to the log, and the report of
  a complete run carries the counts and an error log of as many entries as there were
  failures, and of 20 entries when there were more.
\<close>

theorem error_log_capped:
  "(apply_row k h lang allDupes r (st, sts, errorLog) = Some (st', sts', errorLog') \<longrightarrow>
      (errors sts' = errors sts \<and> errorLog' = errorLog)
      \<or> (errors sts' = errors sts + 1
         \<and> (if length errorLog < 20 then \<exists>msg. errorLog' = errorLog @ [msg]
             else errorLog' = errorLog)))
   \<and> (map_of r lang = Some val \<and> val \<noteq> [] \<longrightarrow>
        (allDupes (js_str (map_of r ''comp_name'')) = None \<longrightarrow>
           (\<exists>msg. apply_row k h lang allDupes r (st, sts, errorLog)
              = Some (st, sts\<lparr>errors := errors sts + 1\<rparr>,
                      if length errorLog < 20 then errorLog @ [msg] else errorLog)))
        \<and> (allDupes (js_str (map_of r ''comp_name'')) = Some dupeMaster \<longrightarrow>
             (findLayerDeep k st dupeMaster (map_of r ''layer_name'') = Some None \<longrightarrow>
                (\<exists>msg. apply_row k h lang allDupes r (st, sts, errorLog)
                   = Some (st, sts\<lparr>errors := errors sts + 1\<rparr>,
                           if length errorLog < 20 then errorLog @ [msg] else errorLog)))
             \<and> (findLayerDeep k st dupeMaster (map_of r ''layer_name'') = Some (Some fnd)
                  \<and> replace_layer h st (row_type r) fnd val = (st2, False) \<longrightarrow>
                (\<exists>msg. apply_row k h lang allDupes r (st, sts, errorLog)
                   = Some (st2, sts\<lparr>errors := errors sts + 1\<rparr>,
                           if length errorLog < 20 then errorLog @ [msg] else errorLog)))
             \<and> (findLayerDeep k st dupeMaster (map_of r ''layer_name'') = Some (Some fnd)
                  \<and> replace_layer h st (row_type r) fnd val = (st2, True) \<longrightarrow>
                apply_row k h lang allDupes r (st, sts, errorLog)
                   = Some (st2, sts\<lparr>success := success sts + 1\<rparr>, errorLog))))
   \<and> (main fuel hst proj csvFile confirmed = Some (Complete report rlog, proj') \<longrightarrow>
        length rlog = min (errors report) 20)"
proof (intro conjI impI)
  assume "apply_row k h lang allDupes r (st, sts, errorLog) = Some (st', sts', errorLog')"
  from apply_row_failure_log[OF this]
  show "(errors sts' = errors sts \<and> errorLog' = errorLog)
      \<or> (errors sts' = errors sts + 1
         \<and> (if length errorLog < 20 then \<exists>msg. errorLog' = errorLog @ [msg]
             else errorLog' = errorLog))" .
next
  assume "map_of r lang = Some val \<and> val \<noteq> []"
    and "allDupes (js_str (map_of r ''comp_name'')) = None"
  then show "\<exists>msg. apply_row k h lang allDupes r (st, sts, errorLog)
              = Some (st, sts\<lparr>errors := errors sts + 1\<rparr>,
                      if length errorLog < 20 then errorLog @ [msg] else errorLog)"
    using apply_row_no_duplicate by blast
next
  assume "map_of r lang = Some val \<and> val \<noteq> []"
    and "allDupes (js_str (map_of r ''comp_name'')) = Some dupeMaster"
    and "findLayerDeep k st dupeMaster (map_of r ''layer_name'') = Some None"
  then show "\<exists>msg. apply_row k h lang allDupes r (st, sts, errorLog)
              = Some (st, sts\<lparr>errors := errors sts + 1\<rparr>,
                      if length errorLog < 20 then errorLog @ [msg] else errorLog)"
    using apply_row_layer_not_found by blast
next
  assume a: "map_of r lang = Some val \<and> val \<noteq> []"
    "allDupes (js_str (map_of r ''comp_name'')) = Some dupeMaster"
    "findLayerDeep k st dupeMaster (map_of r ''layer_name'') = Some (Some fnd)
       \<and> replace_layer h st (row_type r) fnd val = (st2, False)"
  from a have "\<exists>msg. apply_row k h lang allDupes r (st, sts, errorLog)
           = (if False then Some (st2, sts\<lparr>success := success sts + 1\<rparr>, errorLog)
              else Some (st2, sts\<lparr>errors := errors sts + 1\<rparr>,
                         if length errorLog < 20 then errorLog @ [msg] else errorLog))"
    by (intro apply_row_replacement) auto
  then show "\<exists>msg. apply_row k h lang allDupes r (st, sts, errorLog)
              = Some (st2, sts\<lparr>errors := errors sts + 1\<rparr>,
                      if length errorLog < 20 then errorLog @ [msg] else errorLog)"
    by simp
next
  assume a: "map_of r lang = Some val \<and> val \<noteq> []"
    "allDupes (js_str (map_of r ''comp_name'')) = Some dupeMaster"
    "findLayerDeep k st dupeMaster (map_of r ''layer_name'') = Some (Some fnd)
       \<and> replace_layer h st (row_type r) fnd val = (st2, True)"
  from a have "\<exists>msg::string. apply_row k h lang allDupes r (st, sts, errorLog)
           = (if True then Some (st2, sts\<lparr>success := success sts + 1\<rparr>, errorLog)
              else Some (st2, sts\<lparr>errors := errors sts + 1\<rparr>,
                         if length errorLog < 20 then errorLog @ [msg] else errorLog))"
    by (intro apply_row_replacement) auto
  then show "apply_row k h lang allDupes r (st, sts, errorLog)
              = Some (st2, sts\<lparr>success := success sts + 1\<rparr>, errorLog)"
    by simp
next
  assume "main fuel hst proj csvFile confirmed = Some (Complete report rlog, proj')"
  then show "length rlog = min (errors report) 20" by (rule main_log_capped)
qed

theorem error_log_capped_witness:
  "apply_row 1 no_files ''en'' Map.empty demo_row
       (demo_project, \<lparr>success = 0, skipped = 0, errors = 20\<rparr>, replicate 20 ''e'')
     = Some (demo_project, \<lparr>success = 0, skipped = 0, errors = 21\<rparr>, replicate 20 ''e'')
   \<and> findLayerDeep 2 demo_project_en 3 (map_of title_row ''layer_name'') = Some None
   \<and> apply_row 2 no_files ''en'' [''Main'' \<mapsto> 3] title_row (demo_project_en, no_stats, [])
     = Some (demo_project_en, \<lparr>success = 0, skipped = 0, errors = 1\<rparr>,
             [''[en] Layer '' @ quoted ''Title'' @ '' not found in tree''])
   \<and> findLayerDeep 2 demo_project_en 3 (map_of footage_row ''layer_name'') = Some (Some (0, 2))
   \<and> replace_layer no_files demo_project_en (row_type footage_row) (0, 2) ''logo.png''
     = (demo_project_en, False)
   \<and> apply_row 2 no_files ''en'' [''Main'' \<mapsto> 3] footage_row (demo_project_en, no_stats, [])
     = Some (demo_project_en, \<lparr>success = 0, skipped = 0, errors = 1\<rparr>,
             [''[en] Failed: '' @ quoted ''Headline'' @ '' in '' @ quoted ''Sub_en''
              @ '' (footage)''])
   \<and> main 2 no_files demo_project
       (Some (''comp_name,layer_name,en'' @ CHR 0x0A # ''Main,Title,Hi'')) True
     = Some (Complete \<lparr>success = 0, skipped = 0, errors = 1\<rparr>
               [''[en] Layer '' @ quoted ''Title'' @ '' not found in tree''],
             demo_project @
             [\<lparr>cname = ''Sub_en'', layers = [TextLayer ''Headline'' ''Hello'']\<rparr>,
              \<lparr>cname = ''Main_en'', layers = [AVLayer ''Sub'' (CompItem 2)]\<rparr>])
   \<and> length [''[en] Layer '' @ quoted ''Title'' @ '' not found in tree''] = min 1 20"
proof -
  have 1: "apply_row 1 no_files ''en'' Map.empty demo_row
       (demo_project, \<lparr>success = 0, skipped = 0, errors = 20\<rparr>, replicate 20 ''e'')
     = Some (demo_project, \<lparr>success = 0, skipped = 0, errors = 21\<rparr>, replicate 20 ''e'')"
    by code_simp
  have 2: "findLayerDeep 2 demo_project_en 3 (map_of title_row ''layer_name'') = Some None"
    by code_simp
  have 3: "apply_row 2 no_files ''en'' [''Main'' \<mapsto> 3] title_row (demo_project_en, no_stats, [])
     = Some (demo_project_en, \<lparr>success = 0, skipped = 0, errors = 1\<rparr>,
             [''[en] Layer '' @ quoted ''Title'' @ '' not found in tree''])"
    by code_simp
  have 4: "findLayerDeep 2 demo_project_en 3 (map_of footage_row ''layer_name'') = Some (Some (0, 2))"
    by code_simp
  have 5: "replace_layer no_files demo_project_en (row_type footage_row) (0, 2) ''logo.png''
     = (demo_project_en, False)"
    by code_simp
  have v: "map_of footage_row ''en'' = Some ''logo.png'' \<and> ''logo.png'' \<noteq> []"
    by (simp add: footage_row_def)
  have d: "[''Main'' \<mapsto> 3::nat] (js_str (map_of footage_row ''comp_name'')) = Some 3"
    by (simp add: footage_row_def js_str_def)
  from error_log_capped[where h = no_files and lang = "''en''" and r = footage_row
      and val = "''logo.png''" and allDupes = "[''Main'' \<mapsto> 3]" and dupeMaster = 3
      and k = 2 and st = demo_project_en and fnd = "(0, 2)" and ?st2.0 = demo_project_en
      and sts = no_stats and errorLog = "[]"] v d 4 5
  obtain msg where m: "apply_row 2 no_files ''en'' [''Main'' \<mapsto> 3] footage_row
        (demo_project_en, no_stats, [])
      = Some (demo_project_en, no_stats\<lparr>errors := errors no_stats + 1\<rparr>,
              if length ([] :: string list) < 20 then [] @ [msg] else [])"
    by blast
  have "apply_row 2 no_files ''en'' [''Main'' \<mapsto> 3] footage_row (demo_project_en, no_stats, [])
     = Some (demo_project_en, \<lparr>success = 0, skipped = 0, errors = 1\<rparr>,
             [''[en] Failed: '' @ quoted ''Headline'' @ '' in '' @ quoted ''Sub_en''
              @ '' (footage)''])"
    by code_simp
  with m have 6: "apply_row 2 no_files ''en'' [''Main'' \<mapsto> 3] footage_row
        (demo_project_en, no_stats, [])
     = Some (demo_project_en, \<lparr>success = 0, skipped = 0, errors = 1\<rparr>,
             [''[en] Failed: '' @ quoted ''Headline'' @ '' in '' @ quoted ''Sub_en''
              @ '' (footage)''])
     \<and> msg = ''[en] Failed: '' @ quoted ''Headline'' @ '' in '' @ quoted ''Sub_en''
              @ '' (footage)''"
    by (simp add: no_stats_def)
  have 7: "main 2 no_files demo_project
       (Some (''comp_name,layer_name,en'' @ CHR 0x0A # ''Main,Title,Hi'')) True
     = Some (Complete \<lparr>success = 0, skipped = 0, errors = 1\<rparr>
               [''[en] Layer '' @ quoted ''Title'' @ '' not found in tree''],
             demo_project @
             [\<lparr>cname = ''Sub_en'', layers = [TextLayer ''Headline'' ''Hello'']\<rparr>,
              \<lparr>cname = ''Main_en'', layers = [AVLayer ''Sub'' (CompItem 2)]\<rparr>])"
    by code_simp
  from 7 error_log_capped[where fuel = 2 and hst = no_files and proj = demo_project
      and csvFile = "Some (''comp_name,layer_name,en'' @ CHR 0x0A # ''Main,Title,Hi'')"
      and confirmed = True and report = "\<lparr>success = 0, skipped = 0, errors = 1\<rparr>"
      and rlog = "[''[en] Layer '' @ quoted ''Title'' @ '' not found in tree'']"]
  have 8: "length [''[en] Layer '' @ quoted ''Title'' @ '' not found in tree'']
      = min (errors \<lparr>success = 0, skipped = 0, errors = 1\<rparr>) 20"
    by blast
  from 1 2 3 4 5 6 7 8 show ?thesis by simp
qed

text \<open>
  Claim C10. When a row has a value and its layer is found, the row is applied by
  \<^verbatim>\<open>replaceFootage\<close> when its type in lower case is \<open>footage\<close> or \<open>image\<close>, and by
  \<^verbatim>\<open>replaceText\<close> for every other type; a missing or empty type is the type \<open>text\<close>.
\<close>

theorem dispatch_by_type:
  assumes "map_of r lang = Some val" "val \<noteq> []"
    and "allDupes (js_str (map_of r ''comp_name'')) = Some dupeMaster"
    and "findLayerDeep k st dupeMaster (map_of r ''layer_name'') = Some (Some fnd)"
  shows "(\<exists>errorLog'. apply_row k h lang allDupes r (st, sts, errorLog)
     = (case (if row_type r = ''footage'' \<or> row_type r = ''image''
              then replaceFootage h st fnd val else replaceText st fnd val) of
          (st', ok) \<Rightarrow> Some (st', if ok then sts\<lparr>success := success sts + 1\<rparr>
                                 else sts\<lparr>errors := errors sts + 1\<rparr>, errorLog')))
     \<and> row_type r = toLowerCase (case map_of r ''type'' of None \<Rightarrow> ''text''
                                  | Some t \<Rightarrow> if t = [] then ''text'' else t)"
  using assms
  by (auto simp: apply_row_def Let_def replace_layer_def row_type_def property_of_def
      split: prod.splits)

theorem dispatch_by_type_witness:
  "map_of asset_row ''en'' = Some ''Hi''
   \<and> findLayerDeep 2 demo_project_en 3 (map_of asset_row ''layer_name'') = Some (Some (0, 2))
   \<and> row_type asset_row = ''asset''
   \<and> (\<exists>errorLog'. apply_row 2 no_files ''en'' [''Main'' \<mapsto> 3] asset_row
          (demo_project_en, no_stats, [])
        = Some (demo_project @
                [\<lparr>cname = ''Sub_en'', layers = [TextLayer ''Headline'' ''Hi'']\<rparr>,
                 \<lparr>cname = ''Main_en'', layers = [AVLayer ''Sub'' (CompItem 2)]\<rparr>],
                \<lparr>success = 1, skipped = 0, errors = 0\<rparr>, errorLog'))"
proof -
  have a1: "map_of asset_row ''en'' = Some ''Hi''" by (simp add: asset_row_def)
  have a2: "''Hi'' \<noteq> []" by simp
  have a3: "[''Main'' \<mapsto> 3::nat] (js_str (map_of asset_row ''comp_name'')) = Some 3"
    by (simp add: asset_row_def js_str_def)
  have a4: "findLayerDeep 2 demo_project_en 3 (map_of asset_row ''layer_name'') = Some (Some (0, 2))"
    by code_simp
  have ty: "row_type asset_row = ''asset''" by code_simp
  have rt: "replaceText demo_project_en (0, 2) ''Hi''
      = (demo_project @
                [\<lparr>cname = ''Sub_en'', layers = [TextLayer ''Headline'' ''Hi'']\<rparr>,
                 \<lparr>cname = ''Main_en'', layers = [AVLayer ''Sub'' (CompItem 2)]\<rparr>], True)"
    by code_simp
  from dispatch_by_type[where allDupes = "[''Main'' \<mapsto> 3]" and r = asset_row and h = no_files
      and sts = no_stats and errorLog = "[]", OF a1 a2 a3 a4] ty rt
  have "\<exists>errorLog'. apply_row 2 no_files ''en'' [''Main'' \<mapsto> 3] asset_row
          (demo_project_en, no_stats, [])
        = Some (demo_project @
                [\<lparr>cname = ''Sub_en'', layers = [TextLayer ''Headline'' ''Hi'']\<rparr>,
                 \<lparr>cname = ''Main_en'', layers = [AVLayer ''Sub'' (CompItem 2)]\<rparr>],
                \<lparr>success = 1, skipped = 0, errors = 0\<rparr>, errorLog')"
    by (simp add: no_stats_def)
  with a1 a4 ty show ?thesis by blast
qed

section \<open>Deep name resolution\<close>

lemma child_comps_simps [simp]:
  "child_comps [] = []"
  "child_comps (l # ls) = (case comp_source l of None \<Rightarrow> child_comps ls | Some c \<Rightarrow> c # child_comps ls)"
  by (simp_all add: child_comps_def List.map_filter_simps split: option.splits)

lemma set_child_comps: "set (child_comps ls) = comp_ids ls"
  by (induction ls) (auto simp: comp_ids_Cons comp_ids_def split: option.splits)

lemma first_match_append:
  "first_match st nm (xs @ ys) =
     (case first_match st nm xs of Some f \<Rightarrow> Some f | None \<Rightarrow> first_match st nm ys)"
  by (induction xs) (auto split: option.splits)

lemma findLayerDeep_first_match:
  "findLayerDeep k st c nm = Some r \<Longrightarrow> r = first_match st nm (preorder k st c)"
  "find_in_children k st ls nm = Some r \<Longrightarrow>
     r = first_match st nm (concat (map (preorder k st) (child_comps ls)))"
proof (induction k st c nm and k st ls nm arbitrary: r and r rule: findLayerDeep_find_in_children.induct)
  case (1 st c nm)
  then show ?case by simp
next
  case (2 k st c nm)
  then show ?case by (auto split: option.splits)
next
  case (3 k st nm)
  then show ?case by simp
next
  case (4 k st l ls nm)
  show ?case
  proof (cases "comp_source l")
    case None
    with 4 show ?thesis by simp
  next
    case (Some sub)
    show ?thesis
    proof (cases "findLayerDeep k st sub nm")
      case None
      with 4(4) Some show ?thesis by simp
    next
      case outer: (Some res)
      from 4(2)[OF Some outer] have fm: "res = first_match st nm (preorder k st sub)" .
      show ?thesis
      proof (cases res)
        case None
        with 4(3)[OF Some outer] 4(4) Some outer fm show ?thesis
          by (simp add: first_match_append)
      next
        case (Some f)
        with fm have "first_match st nm (preorder k st sub) = Some f" by simp
        with 4(4) \<open>comp_source l = Some sub\<close> outer Some show ?thesis
          by (auto simp: first_match_append)
      qed
    qed
  qed
qed

lemma findLayerDeep_returns:
  "acyclic_by st rank \<Longrightarrow> rank c < k \<Longrightarrow> findLayerDeep k st c nm \<noteq> None"
  "acyclic_by st rank \<Longrightarrow> \<forall>d \<in> set (child_comps ls). rank d < k \<Longrightarrow> find_in_children k st ls nm \<noteq> None"
proof (induction k st c nm and k st ls nm rule: findLayerDeep_find_in_children.induct)
  case (1 st c nm)
  then show ?case by simp
next
  case (2 k st c nm)
  have "\<forall>d \<in> set (child_comps (layers_of st c)). rank d < k"
  proof (cases "c < length st")
    case True
    with 2(2,3) show ?thesis by (fastforce simp: acyclic_by_def)
  next
    case False
    then show ?thesis by (simp add: layers_of_def)
  qed
  with 2 show ?case by (auto split: option.splits)
next
  case (3 k st nm)
  then show ?case by simp
next
  case (4 k st l ls nm)
  then show ?case by (auto split: option.splits)
qed

lemma find_layer_Some:
  "find_layer ls i0 nm = Some i \<Longrightarrow>
   i0 \<le> i \<and> i - i0 < length ls \<and> Some (layer_name (ls ! (i - i0))) = nm
   \<and> (\<forall>j < i - i0. Some (layer_name (ls ! j)) \<noteq> nm)"
proof (induction ls arbitrary: i0)
  case Nil
  then show ?case by simp
next
  case (Cons l ls)
  show ?case
  proof (cases "Some (layer_name l) = nm")
    case True
    with Cons.prems show ?thesis by simp
  next
    case False
    with Cons.prems have "find_layer ls (Suc i0) nm = Some i" by simp
    from Cons.IH[OF this] False show ?thesis
      by (auto simp: Suc_diff_le nth_Cons' less_Suc_eq_0_disj)
  qed
qed

lemma find_layer_None:
  "find_layer ls i0 nm = None \<Longrightarrow> \<forall>l \<in> set ls. Some (layer_name l) \<noteq> nm"
  by (induction ls arbitrary: i0) (auto split: if_splits)

lemma first_match_layer:
  "first_match st nm cs = Some (i, c) \<Longrightarrow>
   c \<in> set cs \<and> (\<exists>l. get_layer st (i, c) = Some l \<and> Some (layer_name l) = nm)"
proof (induction cs)
  case Nil
  then show ?case by simp
next
  case (Cons x cs)
  show ?case
  proof (cases "find_layer (layers_of st x) 0 nm")
    case None
    with Cons show ?thesis by auto
  next
    case (Some j)
    with Cons.prems have "j = i" "x = c" by auto
    with find_layer_Some[OF Some] show ?thesis by (simp add: get_layer_def)
  qed
qed

text \<open>
  Claim C5, amended. \<^verbatim>\<open>findLayerDeep\<close> first looks among the layers of the root for a
  layer of the given name, whatever the layer refers to (a leaf or a composition), then
  searches each child composition in layer order in the same way. A search that returns
  gives the first layer of that name in the depth-first traversal, with the composition
  that owns it, or nothing when no composition of the traversal has such a layer; on a
  project without cycles the search returns as soon as the bound exceeds the rank of
  the root.
\<close>

theorem findLayerDeep_first_in_preorder:
  "(findLayerDeep k st c nm = Some r \<longrightarrow> r = first_match st nm (preorder k st c))
   \<and> (first_match st nm cs = Some (i, c') \<longrightarrow>
        c' \<in> set cs \<and> (\<exists>l. get_layer st (i, c') = Some l \<and> Some (layer_name l) = nm))
   \<and> (acyclic_by st rank \<and> rank c < k \<longrightarrow> findLayerDeep k st c nm \<noteq> None)"
  using findLayerDeep_first_match(1) first_match_layer findLayerDeep_returns(1) by blast

theorem findLayerDeep_first_in_preorder_witness:
  "acyclic_by twin_project (\<lambda>c. 1 - c)
   \<and> preorder 2 twin_project 0 = [0, 1, 2]
   \<and> findLayerDeep 2 twin_project 0 (Some ''Headline'') = Some (Some (1, 1))
   \<and> first_match twin_project (Some ''Headline'') (preorder 2 twin_project 0) = Some (1, 1)
   \<and> get_layer twin_project (1, 1) = Some (TextLayer ''Headline'' ''l'')"
proof -
  have a: "acyclic_by twin_project (\<lambda>c. 1 - c)" by code_simp
  have p: "preorder 2 twin_project 0 = [0, 1, 2]" by code_simp
  have f: "findLayerDeep 2 twin_project 0 (Some ''Headline'') = Some (Some (1, 1))" by code_simp
  have g: "get_layer twin_project (1, 1) = Some (TextLayer ''Headline'' ''l'')" by code_simp
  from f findLayerDeep_first_in_preorder[of 2 twin_project 0 "Some ''Headline''" "Some (1, 1)"]
  have "Some (1, 1) = first_match twin_project (Some ''Headline'') (preorder 2 twin_project 0)"
    by blast
  with a p f g show ?thesis by simp
qed

text \<open>
  Claim C5 as stated fails: the shallow pass does not match leaves only. A layer of the
  root that refers to a composition and bears the name is returned, and the text layer
  of that name inside the composition, which a shallow pass over leaves only would
  reach, is not.
\<close>

theorem findLayerDeep_leaves_only_counterexample:
  "findLayerDeep 2 nested_name_project 0 (Some ''Headline'') = Some (Some (0, 0))
   \<and> get_layer nested_name_project (0, 0) = Some (AVLayer ''Headline'' (CompItem 1))
   \<and> findByName_spec 2 nested_name_project 0 (Some ''Headline'') = Some (Some (0, 1))
   \<and> findLayerDeep 2 nested_name_project 0 (Some ''Headline'')
     \<noteq> findByName_spec 2 nested_name_project 0 (Some ''Headline'')"
  by code_simp

section \<open>Properties of the duplication engine\<close>

subsection \<open>Discovery\<close>

lemma discover_closed:
  "set col \<subseteq> set (discover st ls col)
   \<and> comp_ids ls \<subseteq> set (discover st ls col)
   \<and> (\<forall>c \<in> set (discover st ls col) - set col.
         comp_ids (layers_of st c) \<subseteq> set (discover st ls col))
   \<and> (distinct col \<longrightarrow> distinct (discover st ls col))"
proof (induction st ls col rule: discover.induct)
  case (1 st collected)
  then show ?case by (simp add: comp_ids_def)
next
  case (2 st l ls collected)
  show ?case
  proof (cases "comp_source l")
    case None
    with 2(1) show ?thesis by (simp add: comp_ids_Cons)
  next
    case (Some subComp)
    show ?thesis
    proof (cases "subComp \<in> set collected")
      case True
      with 2(2)[OF Some] Some show ?thesis by (auto simp: comp_ids_Cons)
    next
      case False
      let ?R1 = "discover st (layers_of st subComp) (collected @ [subComp])"
      let ?R2 = "discover st ls ?R1"
      have eq: "discover st (l # ls) collected = ?R2" using Some False by simp
      from 2(3)[OF Some False] have
        a1: "set (collected @ [subComp]) \<subseteq> set ?R1" and
        a2: "comp_ids (layers_of st subComp) \<subseteq> set ?R1" and
        a3: "\<forall>c \<in> set ?R1 - set (collected @ [subComp]). comp_ids (layers_of st c) \<subseteq> set ?R1" and
        a4: "distinct (collected @ [subComp]) \<longrightarrow> distinct ?R1"
        by blast+
      from 2(4)[OF Some False] have
        b1: "set ?R1 \<subseteq> set ?R2" and
        b2: "comp_ids ls \<subseteq> set ?R2" and
        b3: "\<forall>c \<in> set ?R2 - set ?R1. comp_ids (layers_of st c) \<subseteq> set ?R2" and
        b4: "distinct ?R1 \<longrightarrow> distinct ?R2"
        by blast+
      have c1: "set collected \<subseteq> set ?R2" using a1 b1 by auto
      have c2: "comp_ids (l # ls) \<subseteq> set ?R2" using a1 b1 b2 Some by (auto simp: comp_ids_Cons)
      have c3: "\<forall>c \<in> set ?R2 - set collected. comp_ids (layers_of st c) \<subseteq> set ?R2"
      proof
        fix c assume c: "c \<in> set ?R2 - set collected"
        show "comp_ids (layers_of st c) \<subseteq> set ?R2"
        proof (cases "c \<in> set ?R1")
          case False
          with c b3 show ?thesis by blast
        next
          case True
          show ?thesis
          proof (cases "c = subComp")
            case True
            with a2 b1 show ?thesis by blast
          next
            case False
            with True c a3 have "comp_ids (layers_of st c) \<subseteq> set ?R1" by auto
            with b1 show ?thesis by blast
          qed
        qed
      qed
      have c4: "distinct collected \<longrightarrow> distinct ?R2" using a4 b4 False by auto
      from c1 c2 c3 c4 show ?thesis unfolding eq by blast
    qed
  qed
qed

lemma discover_bounded:
  "(\<forall>c < n. comp_ids (layers_of st c) \<subseteq> {..<n}) \<Longrightarrow> comp_ids ls \<subseteq> {..<n} \<Longrightarrow>
   set col \<subseteq> {..<n} \<Longrightarrow> set (discover st ls col) \<subseteq> {..<n}"
proof (induction st ls col rule: discover.induct)
  case (1 st collected)
  then show ?case by simp
next
  case (2 st l ls collected)
  show ?case
  proof (cases "comp_source l")
    case None
    with 2 show ?thesis by (simp add: comp_ids_Cons)
  next
    case (Some subComp)
    then have sub: "subComp < n" using 2(6) by (auto simp: comp_ids_Cons)
    have ls: "comp_ids ls \<subseteq> {..<n}" using 2(6) by (auto simp: comp_ids_Cons)
    show ?thesis
    proof (cases "subComp \<in> set collected")
      case True
      with 2(2)[OF Some True 2(5) ls 2(7)] Some show ?thesis by simp
    next
      case False
      have "set (discover st (layers_of st subComp) (collected @ [subComp])) \<subseteq> {..<n}"
        using 2(5) sub 2(7) by (intro 2(3)[OF Some False]) auto
      from 2(4)[OF Some False 2(5) ls this] Some False show ?thesis by simp
    qed
  qed
qed

lemma discoverAllSubComps_props:
  "distinct (discoverAllSubComps st m)"
  "comp_ids (layers_of st m) \<subseteq> set (discoverAllSubComps st m)"
  "c \<in> set (discoverAllSubComps st m) \<Longrightarrow> comp_ids (layers_of st c) \<subseteq> set (discoverAllSubComps st m)"
  using discover_closed[of "[]" st "layers_of st m"] by (auto simp: discoverAllSubComps_def)

lemma discoverAllSubComps_bounded:
  "(\<forall>c < n. comp_ids (layers_of st c) \<subseteq> {..<n}) \<Longrightarrow> m < n \<Longrightarrow>
   set (discoverAllSubComps st m) \<subseteq> {..<n}"
  unfolding discoverAllSubComps_def by (rule discover_bounded) auto

subsection \<open>Ordering\<close>

lemma allChildrenDone_iff:
  "allChildrenDone h st all pr ls
     = (\<forall>s \<in> comp_ids ls. s \<in> set all \<longrightarrow> flag h pr (name_of st s))"
  by (induction ls) (auto simp: comp_ids_Cons comp_ids_def split: option.splits)

lemma ready_append:
  "ready st all seen (xs @ [c]) =
     (ready st all seen xs
      \<and> (\<forall>s \<in> comp_ids (layers_of st c). s \<in> set all \<longrightarrow> name_of st s \<in> seen \<union> name_of st ` set xs))"
  by (induction xs arbitrary: seen) auto

lemma sort_pass_inv:
  "sort_inv h st all s \<Longrightarrow> set xs \<subseteq> set all \<Longrightarrow> sort_inv h st all (sort_pass h st all xs s)"
proof (induction xs arbitrary: s)
  case Nil
  then show ?case by simp
next
  case (Cons sc rest)
  obtain pr srt where s: "s = (pr, srt)" by (cases s)
  show ?case
  proof (cases "flag h pr (name_of st sc)")
    case True
    with Cons s show ?thesis by simp
  next
    case False
    show ?thesis
    proof (cases "allChildrenDone h st all pr (layers_of st sc)")
      case False
      with \<open>\<not> flag h pr (name_of st sc)\<close> Cons s show ?thesis by simp
    next
      case True
      have "sort_inv h st all (pr(name_of st sc := True), srt @ [sc])"
        using Cons.prems True \<open>\<not> flag h pr (name_of st sc)\<close> s
        by (auto simp: sort_inv_def ready_append allChildrenDone_iff flag_def)
      with Cons True \<open>\<not> flag h pr (name_of st sc)\<close> s show ?thesis by simp
    qed
  qed
qed

lemma sort_pass_mono:
  "sort_pass h st all xs (pr, srt) = (pr', srt') \<Longrightarrow> flag h pr nm \<Longrightarrow> flag h pr' nm"
proof (induction xs arbitrary: pr srt)
  case Nil
  then show ?case by simp
next
  case (Cons sc rest)
  show ?case
  proof (cases "\<not> flag h pr (name_of st sc) \<and> allChildrenDone h st all pr (layers_of st sc)")
    case True
    with Cons.prems(1) have
      "sort_pass h st all rest (pr(name_of st sc := True), srt @ [sc]) = (pr', srt')" by simp
    moreover have "flag h (pr(name_of st sc := True)) nm"
      using Cons.prems(2) by (simp add: flag_def)
    ultimately show ?thesis by (rule Cons.IH)
  next
    case False
    with Cons.prems(1) have "sort_pass h st all rest (pr, srt) = (pr', srt')"
      by (auto split: if_splits)
    from Cons.IH[OF this Cons.prems(2)] show ?thesis .
  qed
qed

lemma sort_pass_hits:
  "sort_pass h st all xs (pr, srt) = (pr', srt') \<Longrightarrow> c \<in> set xs \<Longrightarrow>
   \<forall>s \<in> comp_ids (layers_of st c). s \<in> set all \<longrightarrow> flag h pr (name_of st s) \<Longrightarrow>
   flag h pr' (name_of st c)"
proof (induction xs arbitrary: pr srt)
  case Nil
  then show ?case by simp
next
  case (Cons sc rest)
  show ?case
  proof (cases "c = sc")
    case True
    show ?thesis
    proof (cases "flag h pr (name_of st sc)")
      case p: True
      with Cons.prems(1) True sort_pass_mono[of h st all rest pr srt pr' srt' "name_of st sc"]
      show ?thesis by simp
    next
      case False
      have "allChildrenDone h st all pr (layers_of st sc)"
        using Cons.prems(3) True by (simp add: allChildrenDone_iff)
      with False Cons.prems(1) True
        sort_pass_mono[of h st all rest "pr(name_of st sc := True)" "srt @ [sc]" pr' srt' "name_of st sc"]
      show ?thesis by (simp add: flag_def)
    qed
  next
    case False
    with Cons.prems(2) have c: "c \<in> set rest" by simp
    show ?thesis
    proof (cases "\<not> flag h pr (name_of st sc) \<and> allChildrenDone h st all pr (layers_of st sc)")
      case True
      with Cons.prems(1) have
        "sort_pass h st all rest (pr(name_of st sc := True), srt @ [sc]) = (pr', srt')" by simp
      from Cons.IH[OF this c] Cons.prems(3) show ?thesis by (simp add: flag_def)
    next
      case False
      with Cons.prems(1) have "sort_pass h st all rest (pr, srt) = (pr', srt')"
        by (auto split: if_splits)
      from Cons.IH[OF this c Cons.prems(3)] show ?thesis .
    qed
  qed
qed

lemma sort_pass_progress:
  assumes "acyclic_in st all rank" "unprocessed h st all pr \<noteq> {}"
    and "sort_pass h st all all (pr, srt) = (pr', srt')"
  shows "unprocessed h st all pr' \<subset> unprocessed h st all pr"
proof -
  from assms(2) obtain c0 where "c0 \<in> unprocessed h st all pr" by auto
  from ex_has_least_nat[of "\<lambda>c. c \<in> unprocessed h st all pr" c0 rank, OF this]
  obtain c where c: "c \<in> unprocessed h st all pr"
    and least: "\<forall>y. y \<in> unprocessed h st all pr \<longrightarrow> rank c \<le> rank y" by blast
  have "\<forall>s \<in> comp_ids (layers_of st c). s \<in> set all \<longrightarrow> flag h pr (name_of st s)"
  proof (intro ballI impI)
    fix s assume s: "s \<in> comp_ids (layers_of st c)" "s \<in> set all"
    with assms(1) c have "rank s < rank c" by (auto simp: acyclic_in_def unprocessed_def)
    with least have "s \<notin> unprocessed h st all pr" by fastforce
    with s show "flag h pr (name_of st s)" by (simp add: unprocessed_def)
  qed
  from sort_pass_hits[OF assms(3) _ this] c have "flag h pr' (name_of st c)"
    by (simp add: unprocessed_def)
  then have "c \<notin> unprocessed h st all pr'" by (simp add: unprocessed_def)
  moreover have "unprocessed h st all pr' \<subseteq> unprocessed h st all pr"
    using sort_pass_mono[OF assms(3)] by (auto simp: unprocessed_def)
  ultimately show ?thesis using c by blast
qed

lemma sort_while_inv:
  "sort_inv h st all s \<Longrightarrow> sort_inv h st all (sort_while h st all left s)"
proof (induction left arbitrary: s)
  case 0
  then show ?case by simp
next
  case (Suc left)
  obtain pr srt where s: "s = (pr, srt)" by (cases s)
  from Suc.prems have "sort_inv h st all (sort_pass h st all all s)"
    by (intro sort_pass_inv) auto
  with Suc s show ?case by simp
qed

lemma sort_full:
  assumes "sort_inv h st all (pr, srt)" "distinct all" "\<not> length srt < length all"
  shows "unprocessed h st all pr = {}"
proof -
  from assms(1) have sub: "set srt \<subseteq> set all" and d: "distinct srt"
    and pr: "\<forall>nm. pr nm = (nm \<in> name_of st ` set srt)"
    by (auto simp: sort_inv_def distinct_map)
  have "card (set all) \<le> card (set srt)"
    using assms(2,3) d by (simp add: distinct_card)
  with sub have "set srt = set all" by (simp add: card_seteq)
  with pr show ?thesis by (auto simp: unprocessed_def flag_def)
qed

lemma sort_while_complete:
  "sort_inv h st all s \<Longrightarrow> distinct all \<Longrightarrow> acyclic_in st all rank \<Longrightarrow>
   card (unprocessed h st all (fst s)) \<le> left \<Longrightarrow>
   unprocessed h st all (fst (sort_while h st all left s)) = {}"
proof (induction left arbitrary: s)
  case 0
  have "finite (unprocessed h st all (fst s))" by (simp add: unprocessed_def)
  with 0 show ?case by simp
next
  case (Suc left)
  obtain pr srt where s: "s = (pr, srt)" by (cases s)
  show ?case
  proof (cases "length srt < length all")
    case False
    with sort_full[of h st all pr srt] Suc.prems s show ?thesis by simp
  next
    case True
    obtain pr1 srt1 where p: "sort_pass h st all all (pr, srt) = (pr1, srt1)"
      by (cases "sort_pass h st all all (pr, srt)")
    have inv1: "sort_inv h st all (pr1, srt1)"
      using sort_pass_inv[of h st all s all] Suc.prems(1) s p by simp
    have fin: "finite (unprocessed h st all pr)" by (simp add: unprocessed_def)
    have "card (unprocessed h st all pr1) \<le> left"
    proof (cases "unprocessed h st all pr = {}")
      case True
      with sort_pass_mono[OF p] have "unprocessed h st all pr1 = {}"
        by (auto simp: unprocessed_def)
      then show ?thesis by simp
    next
      case False
      from sort_pass_progress[OF Suc.prems(3) False p] fin
      have "card (unprocessed h st all pr1) < card (unprocessed h st all pr)"
        by (simp add: psubset_card_mono)
      with Suc.prems(4) s show ?thesis by simp
    qed
    from Suc.IH[OF inv1 Suc.prems(2,3)] this True s p show ?thesis by simp
  qed
qed

lemma sort_inv_start: "sort_inv h st all (\<lambda>_. False, [])"
  by (simp add: sort_inv_def)

lemma sortComps_props:
  assumes "distinct all"
  shows "set (sortComps h st all) \<subseteq> set all"
    and "distinct (map (name_of st) (sortComps h st all))"
    and "ready st all (Collect (inherited h)) (sortComps h st all)"
    and "\<forall>c \<in> set (sortComps h st all). \<not> inherited h (name_of st c)"
    and "acyclic_in st all rank \<Longrightarrow>
         name_of st ` set all \<subseteq> name_of st ` set (sortComps h st all) \<union> Collect (inherited h)"
proof -
  let ?s0 = "(\<lambda>_. False, []) :: sort_state"
  let ?k = "length all * length all + 1"
  obtain pr srt where r: "sort_while h st all ?k ?s0 = (pr, srt)"
    by (cases "sort_while h st all ?k ?s0")
  have inv0: "sort_inv h st all ?s0" by (rule sort_inv_start)
  from sort_while_inv[OF inv0, of ?k] r have inv: "sort_inv h st all (pr, srt)" by simp
  have s: "sortComps h st all = srt" using r by (simp add: sortComps_def)
  from inv s show "set (sortComps h st all) \<subseteq> set all"
    "distinct (map (name_of st) (sortComps h st all))"
    "ready st all (Collect (inherited h)) (sortComps h st all)"
    "\<forall>c \<in> set (sortComps h st all). \<not> inherited h (name_of st c)"
    by (auto simp: sort_inv_def)
  assume ac: "acyclic_in st all rank"
  have "card (unprocessed h st all (fst ?s0)) \<le> card (set all)"
    by (intro card_mono) (auto simp: unprocessed_def)
  also have "\<dots> \<le> length all" by (rule card_length)
  also have "\<dots> \<le> ?k" by (cases "length all") auto
  finally have "card (unprocessed h st all (fst ?s0)) \<le> ?k" .
  from sort_while_complete[OF inv0 assms ac this] r have "unprocessed h st all pr = {}" by simp
  with inv s show "name_of st ` set all \<subseteq> name_of st ` set (sortComps h st all) \<union> Collect (inherited h)"
    by (auto simp: sort_inv_def unprocessed_def flag_def)
qed

subsection \<open>Accessors\<close>

lemma layers_of_append:
  "layers_of (st @ [x]) c =
     (if c < length st then layers_of st c else if c = length st then layers x else [])"
  by (auto simp: layers_of_def nth_append)

lemma name_of_append:
  "name_of (st @ [x]) c =
     (if c < length st then name_of st c else if c = length st then cname x else [])"
  by (auto simp: name_of_def nth_append)

lemma layers_of_set_layers:
  "layers_of (set_layers st c ls) d = (if d = c \<and> c < length st then ls else layers_of st d)"
  by (auto simp: layers_of_def set_layers_def)

lemma name_of_set_layers: "name_of (set_layers st c ls) d = name_of st d"
  by (auto simp: name_of_def set_layers_def nth_list_update)

lemma length_set_layers: "length (set_layers st c ls) = length st"
  by (simp add: set_layers_def)

lemma take_set_layers: "n \<le> c \<Longrightarrow> take n (set_layers st c ls) = take n st"
  by (simp add: set_layers_def)

lemma layers_of_take: "take n st' = take n st \<Longrightarrow> n \<le> length st \<Longrightarrow> n \<le> length st' \<Longrightarrow> c < n \<Longrightarrow>
  layers_of st' c = layers_of st c \<and> name_of st' c = name_of st c"
  by (metis layers_of_def name_of_def less_le_trans nth_take)

subsection \<open>One duplication\<close>

lemma relinked_no_source: "comp_source l = None \<Longrightarrow> relinked st dm l = l"
  by (cases "(st, dm, l)" rule: relinked.cases) auto

lemma relink_layer_cases:
  "relink_layer h st dm l =
     (case comp_source l of
        None \<Rightarrow> Some l
      | Some s \<Rightarrow>
          if dm (name_of st s) = None \<and> inherited h (name_of st s) then None
          else Some (relinked st dm l))"
  by (cases "(h, st, dm, l)" rule: relink_layer.cases)
    (auto simp: property_of_def split: option.splits)

lemma relink_layers_ok:
  "relink_layers h st dm ls = (ls', True) \<Longrightarrow>
   ls' = map (relinked st dm) ls
   \<and> (\<forall>s \<in> comp_ids ls. dm (name_of st s) \<noteq> None \<or> \<not> inherited h (name_of st s))"
proof (induction ls arbitrary: ls')
  case Nil
  then show ?case by (simp add: comp_ids_def)
next
  case (Cons l ls)
  from Cons.prems obtain l' ls2 where l': "relink_layer h st dm l = Some l'"
    and r: "relink_layers h st dm ls = (ls2, True)" and e: "ls' = l' # ls2"
    by (auto split: option.splits prod.splits)
  from Cons.IH[OF r] have ih: "ls2 = map (relinked st dm) ls"
    "\<forall>s \<in> comp_ids ls. dm (name_of st s) \<noteq> None \<or> \<not> inherited h (name_of st s)" by auto
  show ?case
  proof (cases "comp_source l")
    case None
    with l' have "l' = relinked st dm l" by (simp add: relink_layer_cases relinked_no_source)
    with ih e None show ?thesis by (simp add: comp_ids_Cons)
  next
    case (Some s)
    with l' have "l' = relinked st dm l"
      "dm (name_of st s) \<noteq> None \<or> \<not> inherited h (name_of st s)"
      by (auto simp: relink_layer_cases split: if_splits)
    with ih e Some show ?thesis by (simp add: comp_ids_Cons)
  qed
qed

lemma relink_layers_total:
  "\<forall>s \<in> comp_ids ls. dm (name_of st s) \<noteq> None \<or> \<not> inherited h (name_of st s) \<Longrightarrow>
   relink_layers h st dm ls = (map (relinked st dm) ls, True)"
proof (induction ls)
  case Nil
  then show ?case by simp
next
  case (Cons l ls)
  from Cons.prems have
    "\<forall>s \<in> comp_ids ls. dm (name_of st s) \<noteq> None \<or> \<not> inherited h (name_of st s)"
    by (auto simp: comp_ids_Cons)
  from Cons.IH[OF this] have ih: "relink_layers h st dm ls = (map (relinked st dm) ls, True)" .
  have "relink_layer h st dm l = Some (relinked st dm l)"
    using Cons.prems
    by (cases "comp_source l") (auto simp: relink_layer_cases relinked_no_source comp_ids_Cons)
  with ih show ?case by simp
qed

lemma relink_duplicate:
  "relink h (duplicate st orig sfx) dm (length st) =
     (case relink_layers h (duplicate st orig sfx) dm (layers_of st orig) of
        (ls, ok) \<Rightarrow> (st @ [\<lparr>cname = name_of st orig @ ''_'' @ sfx, layers = ls\<rparr>], ok))"
  by (simp add: relink_def duplicate_def set_layers_def layers_of_append name_of_append
      split: prod.splits)

lemma dup_subs_step:
  assumes "dup_subs h st sfx (orig # rest) dm = (st', Some dm')"
  shows "dup_subs h (st @ [\<lparr>cname = name_of st orig @ ''_'' @ sfx,
              layers = map (relinked (duplicate st orig sfx) (dm(name_of st orig \<mapsto> length st)))
                         (layers_of st orig)\<rparr>])
           sfx rest (dm(name_of st orig \<mapsto> length st)) = (st', Some dm')"
    and "\<forall>s \<in> comp_ids (layers_of st orig).
           (dm(name_of st orig \<mapsto> length st)) (name_of (duplicate st orig sfx) s) \<noteq> None
           \<or> \<not> inherited h (name_of (duplicate st orig sfx) s)"
proof -
  let ?dm1 = "dm(name_of st orig \<mapsto> length st)"
  let ?st1 = "duplicate st orig sfx"
  obtain ls ok where rl: "relink_layers h ?st1 ?dm1 (layers_of st orig) = (ls, ok)"
    by (cases "relink_layers h ?st1 ?dm1 (layers_of st orig)")
  with assms have ok: "ok" by (auto simp: Let_def relink_duplicate split: if_splits)
  from relink_layers_ok[of h ?st1 ?dm1 "layers_of st orig" ls] rl ok
  have ls: "ls = map (relinked ?st1 ?dm1) (layers_of st orig)"
    and nm: "\<forall>s \<in> comp_ids (layers_of st orig).
           ?dm1 (name_of ?st1 s) \<noteq> None \<or> \<not> inherited h (name_of ?st1 s)"
    by auto
  from assms rl ok ls show "dup_subs h (st @ [\<lparr>cname = name_of st orig @ ''_'' @ sfx,
              layers = map (relinked ?st1 ?dm1) (layers_of st orig)\<rparr>]) sfx rest ?dm1
        = (st', Some dm')"
    by (simp add: Let_def relink_duplicate)
  from nm show "\<forall>s \<in> comp_ids (layers_of st orig).
           ?dm1 (name_of ?st1 s) \<noteq> None \<or> \<not> inherited h (name_of ?st1 s)" .
qed

lemma dup_subs_step_total:
  assumes "\<forall>s \<in> comp_ids (layers_of st orig).
           (dm(name_of st orig \<mapsto> length st)) (name_of (duplicate st orig sfx) s) \<noteq> None
           \<or> \<not> inherited h (name_of (duplicate st orig sfx) s)"
  shows "dup_subs h st sfx (orig # rest) dm =
     dup_subs h (st @ [\<lparr>cname = name_of st orig @ ''_'' @ sfx,
              layers = map (relinked (duplicate st orig sfx) (dm(name_of st orig \<mapsto> length st)))
                         (layers_of st orig)\<rparr>])
           sfx rest (dm(name_of st orig \<mapsto> length st))"
proof -
  have rl: "relink_layers h (duplicate st orig sfx) (dm(name_of st orig \<mapsto> length st))
        (layers_of st orig)
      = (map (relinked (duplicate st orig sfx) (dm(name_of st orig \<mapsto> length st)))
           (layers_of st orig), True)"
    using assms by (rule relink_layers_total)
  show ?thesis
    by (subst dup_subs.simps) (simp only: Let_def relink_duplicate rl prod.case if_True)
qed

lemma dup_subs_appends:
  "dup_subs h st sfx rest dm = (st', res) \<Longrightarrow>
   take (length st) st' = st \<and> length st \<le> length st'"
proof (induction rest arbitrary: st dm)
  case Nil
  then show ?case by simp
next
  case (Cons orig rest)
  let ?dm1 = "dm(name_of st orig \<mapsto> length st)"
  let ?st1 = "duplicate st orig sfx"
  obtain ls ok where rl: "relink_layers h ?st1 ?dm1 (layers_of st orig) = (ls, ok)"
    by (cases "relink_layers h ?st1 ?dm1 (layers_of st orig)")
  let ?st2 = "st @ [\<lparr>cname = name_of st orig @ ''_'' @ sfx, layers = ls\<rparr>]"
  show ?case
  proof (cases ok)
    case False
    with Cons.prems rl have "st' = ?st2" by (simp add: Let_def relink_duplicate)
    then show ?thesis by simp
  next
    case True
    with Cons.prems rl have "dup_subs h ?st2 sfx rest ?dm1 = (st', res)"
      by (simp add: Let_def relink_duplicate)
    from Cons.IH[OF this] have t: "take (Suc (length st)) st' = ?st2" "Suc (length st) \<le> length st'"
      by simp_all
    from t(1) have "take (length st) (take (Suc (length st)) st') = st" by simp
    then have "take (length st) st' = st" by (simp add: min_def)
    with t(2) show ?thesis by simp
  qed
qed

lemma dup_subs_append:
  "dup_subs h st sfx (xs @ ys) dm =
     (case dup_subs h st sfx xs dm of
        (st1, None) \<Rightarrow> (st1, None)
      | (st1, Some dm1) \<Rightarrow> dup_subs h st1 sfx ys dm1)"
  by (induction xs arbitrary: st dm) (simp_all add: Let_def split: prod.splits)

lemma duplicateFullTree_dup_subs:
  "duplicateFullTree h st m sfx =
     dup_subs h st sfx (sortComps h st (discoverAllSubComps st m) @ [m]) Map.empty"
  by (simp add: duplicateFullTree_def dup_subs_append Let_def split: prod.splits option.splits)

lemma duplicateFullTree_appends:
  "duplicateFullTree h st m sfx = (st', res) \<Longrightarrow>
   take (length st) st' = st \<and> length st \<le> length st'"
  unfolding duplicateFullTree_dup_subs by (rule dup_subs_appends)

lemma comp_ids_map_relink:
  assumes "\<forall>s \<in> comp_ids ls. name_of st s \<in> dom dm" "ran dm \<subseteq> {n..}"
  shows "comp_ids (map (relinked st dm) ls) \<subseteq> {n..}"
  using assms
proof (induction ls)
  case Nil
  then show ?case by (simp add: comp_ids_def)
next
  case (Cons l ls)
  have tl: "comp_ids (map (relinked st dm) ls) \<subseteq> {n..}"
    using Cons by (auto simp: comp_ids_Cons)
  show ?case
  proof (cases "comp_source l")
    case None
    then have "comp_source (relinked st dm l) = None" by (simp add: relinked_no_source)
    with tl show ?thesis by (simp add: comp_ids_Cons)
  next
    case (Some s)
    then obtain nm where l: "l = AVLayer nm (CompItem s)"
      by (cases l rule: comp_source.cases) auto
    from Cons.prems(1) Some obtain d where d: "dm (name_of st s) = Some d"
      by (auto simp: comp_ids_Cons)
    with Cons.prems(2) have "n \<le> d" by (auto simp: ran_def)
    with tl l d show ?thesis by (simp add: comp_ids_Cons)
  qed
qed

lemma dup_subs_frame:
  assumes "dup_subs h st sfx rest dm = (st', Some dm')"
    and "agree n S st" "new_closed n st" "ran dm \<subseteq> {n..}"
    and "set rest \<subseteq> {..<n}" "set all \<subseteq> {..<n}"
    and "\<forall>c \<in> set rest. comp_ids (layers_of S c) \<subseteq> set all"
    and "ready S all seen rest" "seen \<subseteq> dom dm \<union> Collect (inherited h)"
  shows "agree n S st' \<and> new_closed n st' \<and> ran dm' \<subseteq> {n..}
       \<and> seen \<union> name_of S ` set rest \<subseteq> dom dm' \<union> Collect (inherited h)"
  using assms
proof (induction rest arbitrary: st dm seen)
  case Nil
  then show ?case by auto
next
  case (Cons orig rest)
  let ?dm1 = "dm(name_of st orig \<mapsto> length st)"
  let ?st1 = "duplicate st orig sfx"
  let ?st2 = "st @ [\<lparr>cname = name_of st orig @ ''_'' @ sfx,
            layers = map (relinked ?st1 ?dm1) (layers_of st orig)\<rparr>]"
  note step = dup_subs_step[OF Cons.prems(1)]
  have rec: "dup_subs h ?st2 sfx rest ?dm1 = (st', Some dm')" by (rule step(1))
  have n: "n \<le> length st" using Cons.prems(2) by (simp add: agree_def)
  have orig: "orig < n" using Cons.prems(5) by simp
  have lo: "layers_of st orig = layers_of S orig" and no: "name_of st orig = name_of S orig"
    using Cons.prems(2) orig by (auto simp: agree_def)
  have names: "\<forall>s \<in> comp_ids (layers_of st orig). name_of ?st1 s \<in> dom ?dm1"
  proof
    fix s assume s: "s \<in> comp_ids (layers_of st orig)"
    with Cons.prems(7) lo have sall: "s \<in> set all" by auto
    with Cons.prems(6) have sn: "s < n" by auto
    with n have "name_of ?st1 s = name_of st s" by (simp add: duplicate_def name_of_append)
    also have "\<dots> = name_of S s" using Cons.prems(2) sn by (simp add: agree_def)
    finally have e: "name_of ?st1 s = name_of S s" .
    from Cons.prems(8) s sall lo have "name_of S s \<in> seen" by simp
    with Cons.prems(9) have "name_of S s \<in> dom dm \<or> inherited h (name_of S s)" by auto
    moreover from step(2) s e
    have "?dm1 (name_of S s) \<noteq> None \<or> \<not> inherited h (name_of S s)" by auto
    ultimately show "name_of ?st1 s \<in> dom ?dm1" using e by auto
  qed
  have ran1: "ran ?dm1 \<subseteq> {n..}"
  proof
    fix d assume "d \<in> ran ?dm1"
    then obtain k where "?dm1 k = Some d" by (auto simp: ran_def)
    then have "d = length st \<or> dm k = Some d" by (auto split: if_splits)
    with Cons.prems(4) n show "d \<in> {n..}" by (auto simp: ran_def)
  qed
  have newc: "comp_ids (map (relinked ?st1 ?dm1) (layers_of st orig)) \<subseteq> {n..}"
    using names ran1 by (rule comp_ids_map_relink)
  have agree2: "agree n S ?st2"
    using Cons.prems(2) by (auto simp: agree_def layers_of_append name_of_append)
  have closed2: "new_closed n ?st2"
    unfolding new_closed_def
  proof (intro allI impI)
    fix d assume d: "n \<le> d"
    show "comp_ids (layers_of ?st2 d) \<subseteq> {n..}"
    proof (cases "d < length st")
      case True
      with Cons.prems(3) d show ?thesis by (simp add: layers_of_append new_closed_def)
    next
      case False
      with newc show ?thesis by (auto simp: layers_of_append comp_ids_def)
    qed
  qed
  have seen1: "insert (name_of S orig) seen \<subseteq> dom ?dm1 \<union> Collect (inherited h)"
    using Cons.prems(9) no by auto
  have ready1: "ready S all (insert (name_of S orig) seen) rest" using Cons.prems(8) by simp
  from Cons.IH[OF rec agree2 closed2 ran1 _ Cons.prems(6) _ ready1 seen1] Cons.prems(5,7)
  show ?case by auto
qed

lemma tree_ready:
  assumes "distinct (discoverAllSubComps st m)"
    and "acyclic_in st (discoverAllSubComps st m) rank"
  shows "ready st (discoverAllSubComps st m) (Collect (inherited h))
           (sortComps h st (discoverAllSubComps st m) @ [m])"
proof -
  let ?all = "discoverAllSubComps st m"
  have "\<forall>s \<in> comp_ids (layers_of st m). s \<in> set ?all \<longrightarrow>
          name_of st s \<in> Collect (inherited h) \<union> name_of st ` set (sortComps h st ?all)"
    using sortComps_props(5)[OF assms] by blast
  with sortComps_props(3)[OF assms(1)] show ?thesis by (simp add: ready_append)
qed

subsection \<open>The original compositions are never written\<close>

lemma duplicateFullTree_frame:
  assumes "duplicateFullTree h st m sfx = (st', Some dm)"
    and "n \<le> length st" "m < n" "orig_closed n st" "acyclic_orig n st rank" "new_closed n st"
  shows "take (length st) st' = st \<and> length st \<le> length st' \<and> new_closed n st'
       \<and> ran dm \<subseteq> {n..}"
proof -
  let ?all = "discoverAllSubComps st m"
  let ?srt = "sortComps h st ?all"
  have d: "dup_subs h st sfx (?srt @ [m]) Map.empty = (st', Some dm)"
    using assms(1) by (simp add: duplicateFullTree_dup_subs)
  have all_n: "set ?all \<subseteq> {..<n}"
    using assms(3,4) by (intro discoverAllSubComps_bounded) (auto simp: orig_closed_def)
  have dist: "distinct ?all" by (rule discoverAllSubComps_props)
  have srt_all: "set ?srt \<subseteq> set ?all" using sortComps_props(1)[OF dist] .
  have ac: "acyclic_in st ?all rank"
    using assms(5) all_n by (auto simp: acyclic_in_def acyclic_orig_def)
  have closed: "\<forall>c \<in> set (?srt @ [m]). comp_ids (layers_of st c) \<subseteq> set ?all"
    using srt_all discoverAllSubComps_props(2)[of st m] discoverAllSubComps_props(3)[of _ st m]
    by auto
  have ag: "agree n st st" using assms(2) by (simp add: agree_def)
  have rest_n: "set (?srt @ [m]) \<subseteq> {..<n}" using srt_all all_n assms(3) by auto
  from dup_subs_frame[OF d ag assms(6) _ rest_n all_n closed tree_ready[OF dist ac]]
  have "new_closed n st'" "ran dm \<subseteq> {n..}" by auto
  with dup_subs_appends[OF d] show ?thesis by simp
qed

lemma findLayerDeep_new:
  "findLayerDeep k st c nm = Some (Some (i, c')) \<Longrightarrow> new_closed n st \<Longrightarrow> n \<le> c \<Longrightarrow> n \<le> c'"
  "find_in_children k st ls nm = Some (Some (i, c')) \<Longrightarrow> new_closed n st \<Longrightarrow>
     comp_ids ls \<subseteq> {n..} \<Longrightarrow> n \<le> c'"
proof (induction k st c nm and k st ls nm rule: findLayerDeep_find_in_children.induct)
  case (1 st c nm)
  then show ?case by simp
next
  case (2 k st c nm)
  show ?case
  proof (cases "find_layer (layers_of st c) 0 nm")
    case None
    with 2(2) have "find_in_children k st (layers_of st c) nm = Some (Some (i, c'))" by simp
    moreover have "comp_ids (layers_of st c) \<subseteq> {n..}" using 2(3,4) by (simp add: new_closed_def)
    ultimately show ?thesis using 2(1)[OF None] 2(3) by blast
  next
    case (Some j)
    with 2(2,4) show ?thesis by simp
  qed
next
  case (3 k st nm)
  then show ?case by simp
next
  case (4 k st l ls nm)
  have ls: "comp_ids ls \<subseteq> {n..}" using 4(6) by (auto simp: comp_ids_Cons)
  show ?case
  proof (cases "comp_source l")
    case None
    with 4(1)[OF None] 4(4,5) ls show ?thesis by simp
  next
    case (Some sub)
    then have sub: "n \<le> sub" using 4(6) by (auto simp: comp_ids_Cons)
    show ?thesis
    proof (cases "findLayerDeep k st sub nm")
      case None
      with 4(4) Some show ?thesis by simp
    next
      case outer: (Some res)
      show ?thesis
      proof (cases res)
        case None
        with 4(3)[OF Some outer None] 4(4,5) Some outer ls show ?thesis by simp
      next
        case (Some f)
        with 4(4) \<open>comp_source l = Some sub\<close> outer have "f = (i, c')" by simp
        with 4(2)[OF \<open>comp_source l = Some sub\<close>] outer Some 4(5) sub show ?thesis by simp
      qed
    qed
  qed
qed

lemma comp_ids_update:
  "comp_source l = None \<Longrightarrow> comp_ids (ls[i := l]) \<subseteq> comp_ids ls"
proof -
  assume l: "comp_source l = None"
  have "set (ls[i := l]) \<subseteq> insert l (set ls)" by (rule set_update_subset_insert)
  with l show ?thesis by (auto simp: comp_ids_def)
qed

lemma set_layer_inv:
  assumes "inv st0 st" "length st0 \<le> c" "comp_source l = None"
  shows "inv st0 (set_layer st (i, c) l)"
proof -
  let ?n = "length st0"
  have "new_closed ?n (set_layer st (i, c) l)"
    unfolding new_closed_def
  proof (intro allI impI)
    fix d assume "?n \<le> d"
    with assms(1) have "comp_ids (layers_of st d) \<subseteq> {?n..}" by (simp add: inv_def new_closed_def)
    moreover have "comp_ids (layers_of st c) \<subseteq> {?n..}"
      using assms(1,2) by (simp add: inv_def new_closed_def)
    ultimately show "comp_ids (layers_of (set_layer st (i, c) l) d) \<subseteq> {?n..}"
      using comp_ids_update[OF assms(3), of "layers_of st c" i]
      by (auto simp: set_layer_def layers_of_set_layers)
  qed
  with assms(1,2) show ?thesis
    by (simp add: inv_def set_layer_def length_set_layers take_set_layers)
qed

lemma replace_layer_inv:
  assumes "replace_layer h st ty (i, c) v = (st', ok)" "inv st0 st" "length st0 \<le> c"
  shows "inv st0 st'"
proof -
  have "st' = st \<or> (\<exists>nm. st' = set_layer st (i, c) (TextLayer nm v))
      \<or> (\<exists>nm. st' = set_layer st (i, c) (AVLayer nm (FootageItem v)))"
    using assms(1)
    by (auto simp: replace_layer_def replaceText_def replaceFootage_def
        split: if_splits option.splits layer.splits)
  then show ?thesis
  proof (elim disjE exE)
    assume "st' = st"
    with assms(2) show ?thesis by simp
  next
    fix nm assume "st' = set_layer st (i, c) (TextLayer nm v)"
    with set_layer_inv[OF assms(2,3), of "TextLayer nm v" i] show ?thesis by simp
  next
    fix nm assume "st' = set_layer st (i, c) (AVLayer nm (FootageItem v))"
    with set_layer_inv[OF assms(2,3), of "AVLayer nm (FootageItem v)" i] show ?thesis by simp
  qed
qed

lemma apply_row_inv:
  assumes "apply_row k h lang allDupes r (st, sts, errorLog) = Some (st', sts', errorLog')"
    and "inv st0 st" "ran allDupes \<subseteq> {length st0..}"
  shows "inv st0 st'"
proof (cases "st' = st")
  case True
  with assms(2) show ?thesis by simp
next
  case False
  with assms(1) obtain dupeMaster i c ok where
    d: "allDupes (js_str (map_of r ''comp_name'')) = Some dupeMaster"
    and f: "findLayerDeep k st dupeMaster (map_of r ''layer_name'') = Some (Some (i, c))"
    and rl: "replace_layer h st (row_type r) (i, c) (the (map_of r lang)) = (st', ok)"
    by (auto simp: apply_row_def Let_def property_of_def
        split: option.splits if_splits prod.splits)
  from d assms(3) have "length st0 \<le> dupeMaster" by (auto simp: ran_def)
  with findLayerDeep_new(1)[OF f] assms(2) have "length st0 \<le> c" by (simp add: inv_def)
  from replace_layer_inv[OF rl assms(2) this] show ?thesis .
qed

lemma apply_rows_inv:
  "apply_rows k h lang allDupes rs (st, sts, errorLog) = Some (st', sts', errorLog') \<Longrightarrow>
   inv st0 st \<Longrightarrow> ran allDupes \<subseteq> {length st0..} \<Longrightarrow> inv st0 st'"
proof (induction rs arbitrary: st sts errorLog)
  case Nil
  then show ?case by simp
next
  case (Cons r rs)
  from Cons.prems(1) obtain st1 sts1 log1 where
    1: "apply_row k h lang allDupes r (st, sts, errorLog) = Some (st1, sts1, log1)"
    and 2: "apply_rows k h lang allDupes rs (st1, sts1, log1) = Some (st', sts', errorLog')"
    by (auto split: option.splits)
  from apply_row_inv[OF 1 Cons.prems(2,3)] Cons.IH[OF 2 _ Cons.prems(3)] show ?case by blast
qed

lemma inv_orig:
  assumes "inv st0 st" "wf_project st0" "acyclic_by st0 rank"
  shows "orig_closed (length st0) st" "acyclic_orig (length st0) st rank"
proof -
  have eq: "\<And>c. c < length st0 \<Longrightarrow> layers_of st c = layers_of st0 c"
    using assms(1) layers_of_take[of "length st0" st st0] by (simp add: inv_def)
  show "orig_closed (length st0) st"
    using assms(2) eq by (auto simp: orig_closed_def wf_project_def set_child_comps)
  show "acyclic_orig (length st0) st rank"
    using assms(3) eq by (auto simp: acyclic_orig_def acyclic_by_def set_child_comps)
qed

lemma duplicate_trees_appends:
  "duplicate_trees h st compInfo sfx ms allDupes = (st', res) \<Longrightarrow>
   take (length st) st' = st \<and> length st \<le> length st'"
proof (induction ms arbitrary: st allDupes)
  case Nil
  then show ?case by simp
next
  case (Cons m ms)
  show ?case
  proof (cases "compInfo m")
    case None
    with Cons.prems show ?thesis by simp
  next
    case (Some ci)
    obtain mComp subs where ci: "ci = (mComp, subs)" by (cases ci)
    obtain st1 r1 where d: "duplicateFullTree h st mComp sfx = (st1, r1)"
      by (cases "duplicateFullTree h st mComp sfx")
    from duplicateFullTree_appends[OF d]
    have a: "take (length st) st1 = st" "length st \<le> length st1" by auto
    show ?thesis
    proof (cases r1)
      case None
      with Cons.prems Some ci d a show ?thesis by simp
    next
      case dm: (Some dupeMap)
      show ?thesis
      proof (cases "copy_own allDupes dupeMap")
        case None
        with Cons.prems Some ci d dm a show ?thesis by simp
      next
        case merged: (Some allDupes1)
        with Cons.prems Some ci d dm have
          "duplicate_trees h st1 compInfo sfx ms allDupes1 = (st', res)" by simp
        from Cons.IH[OF this] have b: "take (length st1) st' = st1" "length st1 \<le> length st'"
          by auto
        have "take (length st) st' = take (length st) (take (length st1) st')"
          using a(2) by (simp add: min_def)
        with a b show ?thesis by simp
      qed
    qed
  qed
qed

lemma duplicate_trees_inv:
  "duplicate_trees h st compInfo sfx ms allDupes = (st', Some allDupes') \<Longrightarrow>
   inv st0 st \<Longrightarrow> wf_project st0 \<Longrightarrow> acyclic_by st0 rank \<Longrightarrow>
   \<forall>m c subs. compInfo m = Some (c, subs) \<longrightarrow> c < length st0 \<Longrightarrow>
   ran allDupes \<subseteq> {length st0..} \<Longrightarrow>
   inv st0 st' \<and> ran allDupes' \<subseteq> {length st0..}"
proof (induction ms arbitrary: st allDupes)
  case Nil
  then show ?case by simp
next
  case (Cons m ms)
  from Cons.prems(1) obtain mComp subs st1 dm where
    ci: "compInfo m = Some (mComp, subs)"
    and d: "duplicateFullTree h st mComp sfx = (st1, Some dm)"
    and rec: "duplicate_trees h st1 compInfo sfx ms (allDupes ++ dm) = (st', Some allDupes')"
    by (auto simp: copy_own_def split: option.splits prod.splits if_splits)
  let ?n = "length st0"
  have m: "mComp < ?n" using Cons.prems(5) ci by blast
  have n: "?n \<le> length st" and tk: "take ?n st = st0" and nc: "new_closed ?n st"
    using Cons.prems(2) by (auto simp: inv_def)
  from duplicateFullTree_frame[OF d n m inv_orig[OF Cons.prems(2,3,4)] nc]
  have f: "take (length st) st1 = st" "length st \<le> length st1" "new_closed ?n st1"
    "ran dm \<subseteq> {?n..}" by auto
  have "take ?n st1 = take ?n (take (length st) st1)" using n by (simp add: min_def)
  with f(1) tk have "take ?n st1 = st0" by simp
  with f n have inv1: "inv st0 st1" by (simp add: inv_def)
  have "ran (allDupes ++ dm) \<subseteq> ran allDupes \<union> ran dm"
    by (auto simp: ran_def map_add_def split: option.splits)
  with Cons.prems(6) f(4) have ran1: "ran (allDupes ++ dm) \<subseteq> {?n..}" by blast
  from Cons.IH[OF rec inv1 Cons.prems(3,4,5) ran1] show ?case .
qed

lemma run_languages_inv:
  "run_languages k h compInfo masterList rs langs (st, sts, errorLog)
     = Some ((st', sts', errorLog'), ok) \<Longrightarrow>
   inv st0 st \<Longrightarrow> wf_project st0 \<Longrightarrow> acyclic_by st0 rank \<Longrightarrow>
   \<forall>m c subs. compInfo m = Some (c, subs) \<longrightarrow> c < length st0 \<Longrightarrow>
   length st0 \<le> length st' \<and> take (length st0) st' = st0"
proof (induction langs arbitrary: st sts errorLog)
  case Nil
  then show ?case by (simp add: inv_def)
next
  case (Cons lang langs)
  obtain st1 res where 0: "duplicate_trees h st compInfo (langSuffix_of lang) masterList Map.empty
      = (st1, res)"
    by (cases "duplicate_trees h st compInfo (langSuffix_of lang) masterList Map.empty")
  show ?case
  proof (cases res)
    case None
    with Cons.prems(1) 0 have e: "st' = st1" by simp
    from duplicate_trees_appends[OF 0] have a: "take (length st) st1 = st" "length st \<le> length st1"
      by auto
    have n: "length st0 \<le> length st" and tk: "take (length st0) st = st0"
      using Cons.prems(2) by (auto simp: inv_def)
    have "take (length st0) st1 = take (length st0) (take (length st) st1)"
      using n by (simp add: min_def)
    with a tk n e show ?thesis by simp
  next
    case (Some allDupes)
    with Cons.prems(1) 0 obtain st2 sts2 log2 where
      1: "apply_rows k h lang allDupes rs (st1, sts, errorLog) = Some (st2, sts2, log2)"
      and 2: "run_languages k h compInfo masterList rs langs (st2, sts2, log2)
          = Some ((st', sts', errorLog'), ok)"
      by (auto split: option.splits)
    from duplicate_trees_inv[OF 0[unfolded Some] Cons.prems(2,3,4,5)]
    have "inv st0 st1" "ran allDupes \<subseteq> {length st0..}" by auto
    from apply_rows_inv[OF 1 this] have "inv st0 st2" .
    from Cons.IH[OF 2 this Cons.prems(3,4,5)] show ?thesis .
  qed
qed

lemma findComp_from_bound: "findComp_from cs i nm = Some c \<Longrightarrow> i \<le> c \<and> c < i + length cs"
proof (induction cs arbitrary: i)
  case Nil
  then show ?case by simp
next
  case (Cons a cs)
  show ?case
  proof (cases "cname a = nm")
    case True
    with Cons.prems show ?thesis by simp
  next
    case False
    with Cons.prems have "findComp_from cs (Suc i) nm = Some c" by simp
    from Cons.IH[OF this] show ?thesis by simp
  qed
qed

lemma validate_bound:
  "validate st ms compInfo = Inr compInfo' \<Longrightarrow>
   \<forall>m c subs. compInfo m = Some (c, subs) \<longrightarrow> c < length st \<Longrightarrow>
   \<forall>m c subs. compInfo' m = Some (c, subs) \<longrightarrow> c < length st"
proof (induction ms arbitrary: compInfo)
  case Nil
  then show ?case by simp
next
  case (Cons m ms)
  from Cons.prems(1) obtain c where c: "findComp st m = Some c"
    and rec: "validate st ms (compInfo(m \<mapsto> (c, discoverAllSubComps st c))) = Inr compInfo'"
    by (auto split: option.splits)
  from c have "c < length st" using findComp_from_bound[of st 0 m c] by (simp add: findComp_def)
  with Cons.prems(2) have
    "\<forall>m' c' subs. (compInfo(m \<mapsto> (c, discoverAllSubComps st c))) m' = Some (c', subs) \<longrightarrow> c' < length st"
    by auto
  from Cons.IH[OF rec this] show ?case .
qed

lemma main_frame:
  assumes "wf_project st" "acyclic_by st rank"
    and "main k h st csvFile confirmed = Some (out, st')"
  shows "length st \<le> length st' \<and> take (length st) st' = st"
proof (cases "st' = st")
  case True
  then show ?thesis by simp
next
  case False
  with assms(3) obtain csv masterList compInfo sts errorLog ok where
    v: "validate st masterList Map.empty = Inr compInfo"
    and r: "run_languages k h compInfo masterList (rows (parseCSV csv))
       (detectLanguages (headers (parseCSV csv)))
       (st, \<lparr>success = 0, skipped = 0, errors = 0\<rparr>, []) = Some ((st', sts, errorLog), ok)"
    by (auto simp: main_def Let_def split: option.splits if_splits sum.splits)
  have ci: "\<forall>m c subs. compInfo m = Some (c, subs) \<longrightarrow> c < length st"
    using validate_bound[OF v] by simp
  have "inv st st" by (simp add: inv_def new_closed_def layers_of_def comp_ids_def)
  from run_languages_inv[OF r this assms(1,2) ci] show ?thesis .
qed

subsection \<open>Cycles and equal names\<close>

lemma ready_before:
  "ready st all seen xs \<Longrightarrow> c \<in> set xs \<Longrightarrow> s \<in> comp_ids (layers_of st c) \<Longrightarrow> s \<in> set all \<Longrightarrow>
   name_of st s \<in> seen \<union> name_of st ` set (takeWhile (\<lambda>y. y \<noteq> c) xs)"
proof (induction xs arbitrary: seen)
  case Nil
  then show ?case by simp
next
  case (Cons x xs)
  show ?case
  proof (cases "x = c")
    case True
    with Cons.prems show ?thesis by simp
  next
    case False
    with Cons.prems have "ready st all (insert (name_of st x) seen) xs" "c \<in> set xs" by auto
    from Cons.IH[OF this Cons.prems(3,4)] False show ?thesis by auto
  qed
qed

lemma before_length:
  "before xs d c \<Longrightarrow>
   length (takeWhile (\<lambda>y. y \<noteq> d) xs) < length (takeWhile (\<lambda>y. y \<noteq> c) xs)"
  unfolding before_def
proof (induction xs)
  case Nil
  then show ?case by simp
next
  case (Cons x xs)
  then show ?case by (auto split: if_splits)
qed

lemma before_trans: "before xs e d \<Longrightarrow> before xs d c \<Longrightarrow> before xs e c"
  unfolding before_def
proof (induction xs)
  case Nil
  then show ?case by simp
next
  case (Cons x xs)
  then show ?case by (auto split: if_splits)
qed

lemma before_irrefl: "\<not> before xs c c"
  unfolding before_def by (auto dest: set_takeWhileD)

lemma before_in_set: "before xs d c \<Longrightarrow> d \<in> set xs"
  unfolding before_def by (auto dest: set_takeWhileD)

lemma sortComps_child_before:
  assumes "inj_on (name_of st) (set all)" "\<forall>x \<in> set all. \<not> inherited h (name_of st x)"
    and "(c, d) \<in> child_rel st all" "c \<in> set (sortComps h st all)"
  shows "before (sortComps h st all) d c"
proof -
  let ?srt = "sortComps h st all"
  have "sort_inv h st all (sort_while h st all (length all * length all + 1) (\<lambda>_. False, []))"
    using sort_inv_start by (rule sort_while_inv)
  then have sub: "set ?srt \<subseteq> set all" and rd: "ready st all (Collect (inherited h)) ?srt"
    by (auto simp: sort_inv_def sortComps_def split: prod.splits)
  from assms(3) have d: "d \<in> comp_ids (layers_of st c)" "d \<in> set all"
    by (auto simp: child_rel_def set_child_comps)
  from ready_before[OF rd assms(4) d] assms(2) d(2)
  obtain d' where d': "d' \<in> set (takeWhile (\<lambda>y. y \<noteq> c) ?srt)" "name_of st d' = name_of st d"
    by auto
  then have "d' \<in> set all" using sub by (auto dest: set_takeWhileD)
  with assms(1) d'(2) d(2) have "d' = d" by (auto dest: inj_onD)
  with d'(1) show ?thesis by (simp add: before_def)
qed

lemma sortComps_descendant_before:
  assumes "inj_on (name_of st) (set all)" "\<forall>x \<in> set all. \<not> inherited h (name_of st x)"
    and "(c, d) \<in> (child_rel st all)\<^sup>+" "c \<in> set (sortComps h st all)"
  shows "before (sortComps h st all) d c"
  using assms(3,4)
proof (induction rule: trancl_induct)
  case (base d)
  with assms(1,2) show ?case by (intro sortComps_child_before) auto
next
  case (step d e)
  from step.IH[OF step.prems] have dc: "before (sortComps h st all) d c" .
  then have "d \<in> set (sortComps h st all)" by (rule before_in_set)
  from sortComps_child_before[OF assms(1,2) step.hyps(2) this]
  have ed: "before (sortComps h st all) e d" .
  from before_trans[OF ed dc] show ?case .
qed

lemma sortComps_cycle_left_out:
  assumes "inj_on (name_of st) (set all)" "\<forall>x \<in> set all. \<not> inherited h (name_of st x)"
    and "(c, c) \<in> (child_rel st all)\<^sup>+"
  shows "c \<notin> set (sortComps h st all)"
  using sortComps_descendant_before[OF assms] before_irrefl by blast

lemma sortComps_sub:
  "set (sortComps h st all) \<subseteq> set all \<and> distinct (sortComps h st all)"
proof -
  have "sort_inv h st all (sort_while h st all (length all * length all + 1) (\<lambda>_. False, []))"
    using sort_inv_start by (rule sort_while_inv)
  then show ?thesis
    by (auto simp: sort_inv_def sortComps_def distinct_map split: prod.splits)
qed

lemma dup_subs_names:
  "dup_subs h st sfx rest dm = (st', Some dm') \<Longrightarrow> set rest \<subseteq> {..<length st} \<Longrightarrow>
   map cname (drop (length st) st') = map (\<lambda>c. name_of st c @ ''_'' @ sfx) rest"
proof (induction rest arbitrary: st dm)
  case Nil
  then show ?case by simp
next
  case (Cons orig rest)
  let ?dm1 = "dm(name_of st orig \<mapsto> length st)"
  let ?x = "\<lparr>cname = name_of st orig @ ''_'' @ sfx,
            layers = map (relinked (duplicate st orig sfx) ?dm1) (layers_of st orig)\<rparr>"
  have rec: "dup_subs h (st @ [?x]) sfx rest ?dm1 = (st', Some dm')"
    using dup_subs_step(1)[OF Cons.prems(1)] .
  have sub: "set rest \<subseteq> {..<length (st @ [?x])}" using Cons.prems(2) by auto
  from Cons.IH[OF rec sub]
  have ih: "map cname (drop (Suc (length st)) st')
      = map (\<lambda>c. name_of (st @ [?x]) c @ ''_'' @ sfx) rest" by simp
  have "map (\<lambda>c. name_of (st @ [?x]) c @ ''_'' @ sfx) rest
      = map (\<lambda>c. name_of st c @ ''_'' @ sfx) rest"
    using Cons.prems(2) by (intro map_cong refl) (auto simp: name_of_append)
  with ih have tl: "map cname (drop (Suc (length st)) st')
      = map (\<lambda>c. name_of st c @ ''_'' @ sfx) rest" by simp
  from dup_subs_appends[OF rec] have a: "take (Suc (length st)) st' = st @ [?x]"
    "Suc (length st) \<le> length st'" by simp_all
  then have lt: "length st < length st'" by simp
  have "st' ! length st = take (Suc (length st)) st' ! length st" by simp
  also have "\<dots> = ?x" unfolding a(1) by simp
  finally have hd: "st' ! length st = ?x" .
  have "drop (length st) st' = st' ! length st # drop (Suc (length st)) st'"
    using lt by (simp add: Cons_nth_drop_Suc)
  with hd tl show ?case by simp
qed

lemma duplicateFullTree_names:
  assumes "wf_project st" "m < length st" "duplicateFullTree h st m sfx = (st', Some dm)"
  shows "take (length st) st' = st
       \<and> map cname (drop (length st) st')
         = map (\<lambda>c. name_of st c @ ''_'' @ sfx) (sortComps h st (discoverAllSubComps st m) @ [m])"
proof -
  let ?all = "discoverAllSubComps st m"
  have d: "dup_subs h st sfx (sortComps h st ?all @ [m]) Map.empty = (st', Some dm)"
    using assms(3) by (simp add: duplicateFullTree_dup_subs)
  have "set ?all \<subseteq> {..<length st}"
    using assms(1,2)
    by (intro discoverAllSubComps_bounded) (auto simp: wf_project_def set_child_comps)
  with sortComps_sub[of h st ?all] assms(2)
  have "set (sortComps h st ?all @ [m]) \<subseteq> {..<length st}" by auto
  from dup_subs_names[OF d this] dup_subs_appends[OF d] show ?thesis by simp
qed

lemma inherited_name_run:
  "discoverAllSubComps inherited_name_project 0 = [1]
   \<and> sortComps no_files inherited_name_project [1] = []
   \<and> main 2 no_files inherited_name_project
       (Some (''comp_name,layer_name,type,en'' @ CHR 0x0A # ''M,T,text,Hi'')) True
     = Some (RuntimeError,
         inherited_name_project @ [\<lparr>cname = ''M_en'', layers = [AVLayer ''s'' (CompItem 1)]\<rparr>])"
  by code_simp

lemma inherited_cycle_ordered:
  "discoverAllSubComps inherited_cycle_project 0 = [1, 2]
   \<and> (1, 1) \<in> (child_rel inherited_cycle_project [1, 2])\<^sup>+
   \<and> sortComps no_files inherited_cycle_project [1, 2] = [1]"
proof -
  have "child_comps (layers_of inherited_cycle_project 1) = [2]"
    "child_comps (layers_of inherited_cycle_project 2) = [1]"
    by code_simp+
  then have "(1, 2) \<in> child_rel inherited_cycle_project [1, 2]"
    "(2, 1) \<in> child_rel inherited_cycle_project [1, 2]"
    by (simp_all add: child_rel_def)
  then have "(1, 1) \<in> (child_rel inherited_cycle_project [1, 2])\<^sup>+"
    by (rule trancl_trans[OF r_into_trancl r_into_trancl])
  moreover have "discoverAllSubComps inherited_cycle_project 0 = [1, 2]" by code_simp
  moreover have "sortComps no_files inherited_cycle_project [1, 2] = [1]" by code_simp
  ultimately show ?thesis by blast
qed

text \<open>
  Claim C3, amended. Discovery and ordering raise no error on any graph, with a cycle
  or without: discovery returns a list without repetition, and ordering returns a list
  without repetition of compositions of its input. When the compositions of the input
  bear distinct names, none of which is inherited from \<^verbatim>\<open>Object.prototype\<close>, a
  composition of the input that lies on a cycle of references is not in the result of
  the ordering: it is left out silently. A duplication that raises no error then leaves
  the project as it was and adds to it one duplicate for each composition of the
  ordering, in that order, and one for the root, whether the root lies on a cycle or
  not.
\<close>

theorem cyclic_graph_silently_partial:
  "distinct (discoverAllSubComps st m)
   \<and> set (sortComps h st all) \<subseteq> set all \<and> distinct (sortComps h st all)
   \<and> (inj_on (name_of st) (set all) \<and> (\<forall>x \<in> set all. \<not> inherited h (name_of st x))
        \<and> (c, c) \<in> (child_rel st all)\<^sup>+
        \<longrightarrow> c \<notin> set (sortComps h st all))
   \<and> (wf_project st \<and> m < length st \<and> duplicateFullTree h st m sfx = (st', Some dm)
        \<longrightarrow> take (length st) st' = st
          \<and> map cname (drop (length st) st')
            = map (\<lambda>c. name_of st c @ ''_'' @ sfx)
                (sortComps h st (discoverAllSubComps st m) @ [m]))"
  using discoverAllSubComps_props(1) sortComps_sub sortComps_cycle_left_out
    duplicateFullTree_names by blast

theorem cyclic_graph_silently_partial_witness:
  "discoverAllSubComps cyclic_project 0 = [1, 2]
   \<and> inj_on (name_of cyclic_project) (set [1, 2])
   \<and> \<not> inherited no_files (name_of cyclic_project 1)
   \<and> \<not> inherited no_files (name_of cyclic_project 2)
   \<and> (1, 1) \<in> (child_rel cyclic_project [1, 2])\<^sup>+
   \<and> 1 \<notin> set (sortComps no_files cyclic_project [1, 2])
   \<and> sortComps no_files cyclic_project [1, 2] = []
   \<and> wf_project root_cycle_project
   \<and> discoverAllSubComps root_cycle_project 0 = [1, 0]
   \<and> sortComps no_files root_cycle_project [1, 0] = []
   \<and> fst (duplicateFullTree no_files root_cycle_project 0 ''en'')
     = root_cycle_project @ [\<lparr>cname = ''M_en'', layers = [AVLayer ''A'' (CompItem 1)]\<rparr>]
   \<and> snd (duplicateFullTree no_files root_cycle_project 0 ''en'') \<noteq> None
   \<and> map cname (drop (length root_cycle_project)
        (root_cycle_project @ [\<lparr>cname = ''M_en'', layers = [AVLayer ''A'' (CompItem 1)]\<rparr>]))
     = map (\<lambda>c. name_of root_cycle_project c @ ''_'' @ ''en'') ([] @ [0])"
proof -
  have d: "discoverAllSubComps cyclic_project 0 = [1, 2]" by code_simp
  have n1: "name_of cyclic_project 1 = ''A''" and n2: "name_of cyclic_project 2 = ''B''"
    by code_simp+
  have i: "inj_on (name_of cyclic_project) (set [1, 2])" using n1 n2 by (simp add: inj_on_def)
  have ni1: "\<not> inherited no_files (name_of cyclic_project 1)"
    and ni2: "\<not> inherited no_files (name_of cyclic_project 2)" by code_simp+
  then have ni: "\<forall>x \<in> set [1, 2]. \<not> inherited no_files (name_of cyclic_project x)" by simp
  have "child_comps (layers_of cyclic_project 1) = [2]" "child_comps (layers_of cyclic_project 2) = [1]"
    by code_simp+
  then have "(1, 2) \<in> child_rel cyclic_project [1, 2]" "(2, 1) \<in> child_rel cyclic_project [1, 2]"
    by (simp_all add: child_rel_def)
  then have t: "(1, 1) \<in> (child_rel cyclic_project [1, 2])\<^sup>+" by (rule trancl_trans[OF r_into_trancl r_into_trancl])
  have s: "sortComps no_files cyclic_project [1, 2] = []" by code_simp
  from cyclic_graph_silently_partial[of cyclic_project 0 no_files "[1, 2]" 1] i ni t
  have o: "1 \<notin> set (sortComps no_files cyclic_project [1, 2])" by blast
  have w: "wf_project root_cycle_project" by code_simp
  have rd: "discoverAllSubComps root_cycle_project 0 = [1, 0]" by code_simp
  have rs: "sortComps no_files root_cycle_project [1, 0] = []" by code_simp
  have f: "fst (duplicateFullTree no_files root_cycle_project 0 ''en'')
     = root_cycle_project @ [\<lparr>cname = ''M_en'', layers = [AVLayer ''A'' (CompItem 1)]\<rparr>]"
    by code_simp
  have sn: "snd (duplicateFullTree no_files root_cycle_project 0 ''en'') \<noteq> None" by code_simp
  then obtain dm where
    "duplicateFullTree no_files root_cycle_project 0 ''en''
      = (fst (duplicateFullTree no_files root_cycle_project 0 ''en''), Some dm)"
    by (cases "duplicateFullTree no_files root_cycle_project 0 ''en''") auto
  with f have r: "duplicateFullTree no_files root_cycle_project 0 ''en''
      = (root_cycle_project @ [\<lparr>cname = ''M_en'', layers = [AVLayer ''A'' (CompItem 1)]\<rparr>], Some dm)"
    by simp
  have m: "(0::nat) < length root_cycle_project" by code_simp
  from cyclic_graph_silently_partial[of root_cycle_project 0 no_files "[]" 0 "''en''"
      "root_cycle_project @ [\<lparr>cname = ''M_en'', layers = [AVLayer ''A'' (CompItem 1)]\<rparr>]" dm] w m r
  have "map cname (drop (length root_cycle_project)
        (root_cycle_project @ [\<lparr>cname = ''M_en'', layers = [AVLayer ''A'' (CompItem 1)]\<rparr>]))
     = map (\<lambda>c. name_of root_cycle_project c @ ''_'' @ ''en'')
         (sortComps no_files root_cycle_project (discoverAllSubComps root_cycle_project 0) @ [0])"
    by blast
  then have nm: "map cname (drop (length root_cycle_project)
        (root_cycle_project @ [\<lparr>cname = ''M_en'', layers = [AVLayer ''A'' (CompItem 1)]\<rparr>]))
     = map (\<lambda>c. name_of root_cycle_project c @ ''_'' @ ''en'') ([] @ [0])"
    by (simp only: rd rs)
  from d i ni1 ni2 t o s w rd rs f sn nm show ?thesis by blast
qed

text \<open>
  Claim C3 as stated fails: on the project with a cycle the run reports no error. It is
  complete, with one replacement counted; the compositions \<open>A\<close> and \<open>B\<close> of the cycle
  have no duplicate, the duplicate of \<open>M\<close> still refers to \<open>A\<close>, and the text was
  replaced in \<open>B\<close> itself.
\<close>

theorem cyclic_graph_counterexample:
  "main 3 no_files cyclic_project (Some cyclic_manifest) True =
     Some (Complete \<lparr>success = 1, skipped = 0, errors = 0\<rparr> [],
       [\<lparr>cname = ''M'', layers = [AVLayer ''A'' (CompItem 1)]\<rparr>,
        \<lparr>cname = ''A'', layers = [AVLayer ''B'' (CompItem 2)]\<rparr>,
        \<lparr>cname = ''B'', layers = [AVLayer ''A'' (CompItem 1), TextLayer ''T'' ''Hi'']\<rparr>,
        \<lparr>cname = ''M_en'', layers = [AVLayer ''A'' (CompItem 1)]\<rparr>])"
  by code_simp

text \<open>
  Claim C4 fails on the code. The two sub-compositions of \<open>same_name_project\<close> refer to
  nothing, so any order of them is right; the ordering returns only the first, because
  it marks the compositions done by name.
\<close>

theorem sortComps_same_name:
  "discoverAllSubComps same_name_project 0 = [1, 2]
   \<and> sortComps no_files same_name_project (discoverAllSubComps same_name_project 0) = [1]"
  by code_simp

text \<open>
  Claim C1 fails on the code. On \<open>same_name_project\<close> the duplication raises no error,
  the second composition named \<open>X\<close> gets no duplicate, and in the duplicate of \<open>M\<close>
  the reference to it is rewritten to the duplicate of the first one.
\<close>

theorem duplicateFullTree_same_name:
  "fst (duplicateFullTree no_files same_name_project 0 ''en'') =
     same_name_project @
     [\<lparr>cname = ''X_en'', layers = [TextLayer ''T'' ''one'']\<rparr>,
      \<lparr>cname = ''M_en'', layers = [AVLayer ''a'' (CompItem 3), AVLayer ''b'' (CompItem 3)]\<rparr>]
   \<and> map_option (\<lambda>dupeMap. (dupeMap ''X'', dupeMap ''M''))
       (snd (duplicateFullTree no_files same_name_project 0 ''en''))
     = Some (Some 3, Some 4)"
  by code_simp

subsection \<open>With distinct names\<close>

lemma sortComps_topological:
  assumes "distinct all" "inj_on (name_of st) (set all)" "acyclic_in st all rank"
    and "\<forall>x \<in> set all. \<not> inherited h (name_of st x)"
  shows "set (sortComps h st all) = set all" "distinct (sortComps h st all)"
    and "\<forall>c \<in> set all. \<forall>d \<in> comp_ids (layers_of st c). d \<in> set all \<longrightarrow>
           before (sortComps h st all) d c"
proof -
  have sub: "set (sortComps h st all) \<subseteq> set all" and d: "distinct (sortComps h st all)"
    using sortComps_sub by auto
  have "set all \<subseteq> set (sortComps h st all)"
  proof
    fix c assume c: "c \<in> set all"
    with sortComps_props(5)[OF assms(1,3), of h] assms(4) obtain c' where
      c': "c' \<in> set (sortComps h st all)" "name_of st c' = name_of st c" by force
    with sub c assms(2) have "c' = c" by (auto dest: inj_onD)
    with c' show "c \<in> set (sortComps h st all)" by simp
  qed
  with sub show eq: "set (sortComps h st all) = set all" by auto
  show "distinct (sortComps h st all)" by (rule d)
  show "\<forall>c \<in> set all. \<forall>d \<in> comp_ids (layers_of st c). d \<in> set all \<longrightarrow>
           before (sortComps h st all) d c"
  proof (intro ballI impI)
    fix c d assume "c \<in> set all" "d \<in> comp_ids (layers_of st c)" "d \<in> set all"
    then have "(c, d) \<in> child_rel st all" by (simp add: child_rel_def set_child_comps)
    from sortComps_child_before[OF assms(2,4) this] \<open>c \<in> set all\<close> eq
    show "before (sortComps h st all) d c" by simp
  qed
qed

lemma relinked_cong:
  assumes "\<And>s. comp_source l = Some s \<Longrightarrow>
             name_of st1 s = name_of S s \<and> dm1 (name_of S s) = dm' (name_of S s)"
  shows "relinked st1 dm1 l = relinked S dm' l"
proof (cases "comp_source l")
  case None
  then show ?thesis by (simp add: relinked_no_source)
next
  case (Some s)
  then obtain nm where l: "l = AVLayer nm (CompItem s)"
    by (cases l rule: comp_source.cases) auto
  from assms[OF Some] l show ?thesis by simp
qed

lemma dup_subs_take:
  "dup_subs h st sfx rest dm = (st', Some dm') \<Longrightarrow>
   take (length st) st' = st \<and> length st' = length st + length rest"
proof (induction rest arbitrary: st dm)
  case Nil
  then show ?case by simp
next
  case (Cons orig rest)
  from dup_subs_step(1)[OF Cons.prems] obtain x where
    rec: "dup_subs h (st @ [x]) sfx rest (dm(name_of st orig \<mapsto> length st)) = (st', Some dm')"
    by blast
  from Cons.IH[OF rec] have "length st' = length (st @ [x]) + length rest" by blast
  with dup_subs_appends[OF Cons.prems] show ?case by simp
qed

lemma dup_subs_iso:
  assumes "dup_subs h st sfx rest dm = (st', Some dm')"
    and "agree n S st"
    and "set rest \<subseteq> {..<n}" "set all \<subseteq> {..<n}"
    and "\<forall>c \<in> set rest. comp_ids (layers_of S c) \<subseteq> set all"
    and "ready S all seen rest" "seen \<subseteq> dom dm \<union> Collect (inherited h)"
    and "distinct (map (name_of S) rest)" "name_of S ` set rest \<inter> dom dm = {}"
  shows "dm \<subseteq>\<^sub>m dm' \<and> dom dm' = dom dm \<union> name_of S ` set rest
       \<and> length st' = length st + length rest
       \<and> (\<forall>c \<in> set rest. \<exists>d. dm' (name_of S c) = Some d \<and> length st \<le> d \<and> d < length st'
             \<and> name_of st' d = name_of S c @ ''_'' @ sfx
             \<and> layers_of st' d = map (relinked S dm') (layers_of S c))"
  using assms
proof (induction rest arbitrary: st dm seen)
  case Nil
  then show ?case by simp
next
  case (Cons orig rest)
  let ?dm1 = "dm(name_of st orig \<mapsto> length st)"
  let ?st1 = "duplicate st orig sfx"
  let ?st2 = "st @ [\<lparr>cname = name_of st orig @ ''_'' @ sfx,
            layers = map (relinked ?st1 ?dm1) (layers_of st orig)\<rparr>]"
  note step = dup_subs_step[OF Cons.prems(1)]
  have rec: "dup_subs h ?st2 sfx rest ?dm1 = (st', Some dm')" by (rule step(1))
  have n: "n \<le> length st" using Cons.prems(2) by (simp add: agree_def)
  have orig: "orig < n" using Cons.prems(3) by simp
  have lo: "layers_of st orig = layers_of S orig" and no: "name_of st orig = name_of S orig"
    using Cons.prems(2) orig by (auto simp: agree_def)
  have agree2: "agree n S ?st2"
    using Cons.prems(2) by (auto simp: agree_def layers_of_append name_of_append)
  have seen1: "insert (name_of S orig) seen \<subseteq> dom ?dm1 \<union> Collect (inherited h)"
    using Cons.prems(7) no by auto
  have ready1: "ready S all (insert (name_of S orig) seen) rest" using Cons.prems(6) by simp
  have fresh: "name_of S orig \<notin> dom dm" using Cons.prems(9) by auto
  have disj1: "name_of S ` set rest \<inter> dom ?dm1 = {}"
    using Cons.prems(8,9) no by auto
  have r3: "set rest \<subseteq> {..<n}" using Cons.prems(3) by simp
  have r5: "\<forall>c \<in> set rest. comp_ids (layers_of S c) \<subseteq> set all" using Cons.prems(5) by simp
  have r8: "distinct (map (name_of S) rest)" using Cons.prems(8) by simp
  note ihc = Cons.IH[OF rec agree2 r3 Cons.prems(4) r5 ready1 seen1 r8 disj1]
  have ih: "?dm1 \<subseteq>\<^sub>m dm'" "dom dm' = dom ?dm1 \<union> name_of S ` set rest"
    "length st' = length ?st2 + length rest"
    "\<forall>c \<in> set rest. \<exists>d. dm' (name_of S c) = Some d \<and> length ?st2 \<le> d \<and> d < length st'
             \<and> name_of st' d = name_of S c @ ''_'' @ sfx
             \<and> layers_of st' d = map (relinked S dm') (layers_of S c)"
    using ihc by blast+
  have len2: "length ?st2 = Suc (length st)" by simp
  have le: "dm \<subseteq>\<^sub>m dm'"
    using ih(1) fresh no by (auto simp: map_le_def dom_def split: if_splits)
  have dmo: "dm' (name_of S orig) = Some (length st)"
    using ih(1) no by (auto simp: map_le_def dom_def split: if_splits)
  have frame: "take (length ?st2) st' = ?st2"
    using dup_subs_take[OF rec] by blast
  have layers_eq: "map (relinked ?st1 ?dm1) (layers_of S orig)
      = map (relinked S dm') (layers_of S orig)"
  proof (intro map_cong refl relinked_cong)
    fix l s assume l: "l \<in> set (layers_of S orig)" "comp_source l = Some s"
    then have s: "s \<in> comp_ids (layers_of S orig)" by (auto simp: comp_ids_def)
    with Cons.prems(5) have sall: "s \<in> set all" by auto
    with Cons.prems(4) have sn: "s < n" by auto
    with n have "name_of ?st1 s = name_of st s" by (simp add: duplicate_def name_of_append)
    also have "\<dots> = name_of S s" using Cons.prems(2) sn by (simp add: agree_def)
    finally have e: "name_of ?st1 s = name_of S s" .
    from Cons.prems(6) s sall have "name_of S s \<in> seen" by simp
    with Cons.prems(7) have "name_of S s \<in> dom dm \<or> inherited h (name_of S s)" by auto
    moreover from step(2) s e lo
    have "?dm1 (name_of S s) \<noteq> None \<or> \<not> inherited h (name_of S s)" by auto
    ultimately have "name_of S s \<in> dom ?dm1" by auto
    with ih(1) have "?dm1 (name_of S s) = dm' (name_of S s)" unfolding map_le_def by blast
    with e show "name_of ?st1 s = name_of S s \<and> ?dm1 (name_of S s) = dm' (name_of S s)" by simp
  qed
  have at: "st' ! length st = ?st2 ! length st"
    using frame len2 by (metis lessI nth_take)
  have lst: "length st < length st'" using ih(3) len2 by simp
  have head: "name_of st' (length st) = name_of S orig @ ''_'' @ sfx
      \<and> layers_of st' (length st) = map (relinked S dm') (layers_of S orig)"
    using at lst layers_eq lo no by (simp add: name_of_def layers_of_def)
  have "\<forall>c \<in> set (orig # rest). \<exists>d. dm' (name_of S c) = Some d \<and> length st \<le> d \<and> d < length st'
             \<and> name_of st' d = name_of S c @ ''_'' @ sfx
             \<and> layers_of st' d = map (relinked S dm') (layers_of S c)"
  proof
    fix c assume "c \<in> set (orig # rest)"
    then consider "c = orig" | "c \<in> set rest" by auto
    then show "\<exists>d. dm' (name_of S c) = Some d \<and> length st \<le> d \<and> d < length st'
             \<and> name_of st' d = name_of S c @ ''_'' @ sfx
             \<and> layers_of st' d = map (relinked S dm') (layers_of S c)"
    proof cases
      case 1
      with dmo lst head show ?thesis by auto
    next
      case 2
      with ih(4) len2 show ?thesis by fastforce
    qed
  qed
  moreover have "dom dm' = dom dm \<union> name_of S ` set (orig # rest)" using ih(2) no by auto
  moreover have "length st' = length st + length (orig # rest)" using ih(3) len2 by simp
  ultimately show ?case using le by blast
qed

lemma duplicateFullTree_iso:
  assumes "duplicateFullTree h st m sfx = (st', Some dm)"
    and "n \<le> length st" "m < n" "orig_closed n st" "acyclic_orig n st rank"
    and "distinct (map (name_of st) (m # discoverAllSubComps st m))"
    and "\<forall>c \<in> set (discoverAllSubComps st m). \<not> inherited h (name_of st c)"
  shows "take (length st) st' = st
       \<and> length st' = length st + length (discoverAllSubComps st m) + 1
       \<and> dom dm = name_of st ` set (m # discoverAllSubComps st m)
       \<and> (\<forall>c \<in> set (m # discoverAllSubComps st m).
             \<exists>d. dm (name_of st c) = Some d \<and> length st \<le> d \<and> d < length st'
               \<and> name_of st' d = name_of st c @ ''_'' @ sfx
               \<and> layers_of st' d = map (relinked st dm) (layers_of st c)
               \<and> (\<forall>s \<in> comp_ids (layers_of st c). name_of st s \<in> dom dm))"
proof -
  let ?all = "discoverAllSubComps st m"
  let ?srt = "sortComps h st ?all"
  have d: "dup_subs h st sfx (?srt @ [m]) Map.empty = (st', Some dm)"
    using assms(1) by (simp add: duplicateFullTree_dup_subs)
  have all_n: "set ?all \<subseteq> {..<n}"
    using assms(3,4) by (intro discoverAllSubComps_bounded) (auto simp: orig_closed_def)
  have dist: "distinct ?all" by (rule discoverAllSubComps_props)
  have ac: "acyclic_in st ?all rank"
    using assms(5) all_n by (auto simp: acyclic_in_def acyclic_orig_def)
  have inj: "inj_on (name_of st) (set ?all)" using assms(6) by (simp add: distinct_map)
  have seq: "set ?srt = set ?all" and sd: "distinct ?srt"
    using sortComps_topological(1,2)[OF dist inj ac assms(7)] by auto
  have len: "length ?srt = length ?all"
    using seq sd dist by (metis distinct_card)
  have closed: "\<forall>c \<in> set (?srt @ [m]). comp_ids (layers_of st c) \<subseteq> set ?all"
    using seq discoverAllSubComps_props(2)[of st m] discoverAllSubComps_props(3)[of _ st m]
    by auto
  have ag: "agree n st st" using assms(2) by (simp add: agree_def)
  have rest_n: "set (?srt @ [m]) \<subseteq> {..<n}" using seq all_n assms(3) by auto
  have dn: "distinct (map (name_of st) (?srt @ [m]))"
    using assms(6) seq sd by (auto simp: distinct_map inj_on_def)
  from dup_subs_iso[OF d ag rest_n all_n closed tree_ready[OF dist ac] _ dn]
  have iso: "dom dm = name_of st ` set (?srt @ [m])"
    "length st' = length st + length (?srt @ [m])"
    "\<forall>c \<in> set (?srt @ [m]). \<exists>d. dm (name_of st c) = Some d \<and> length st \<le> d \<and> d < length st'
             \<and> name_of st' d = name_of st c @ ''_'' @ sfx
             \<and> layers_of st' d = map (relinked st dm) (layers_of st c)"
    by auto
  have names: "\<forall>c \<in> set (m # ?all). \<forall>s \<in> comp_ids (layers_of st c). name_of st s \<in> dom dm"
  proof (intro ballI)
    fix c s assume "c \<in> set (m # ?all)" "s \<in> comp_ids (layers_of st c)"
    with closed seq have "s \<in> set ?all" by auto
    with iso(1) seq show "name_of st s \<in> dom dm" by auto
  qed
  from dup_subs_take[OF d] iso names seq len show ?thesis by auto
qed

subsection \<open>The project stays free of cycles\<close>

lemma comp_ids_map_relink_image:
  "comp_ids (map (relinked st dm) ls)
     \<subseteq> (\<lambda>s. case dm (name_of st s) of Some d \<Rightarrow> d | None \<Rightarrow> s) ` comp_ids ls"
proof (induction ls)
  case Nil
  then show ?case by (simp add: comp_ids_def)
next
  case (Cons l ls)
  show ?case
  proof (cases "comp_source l")
    case None
    then have "comp_source (relinked st dm l) = None" by (simp add: relinked_no_source)
    with Cons None show ?thesis by (auto simp: comp_ids_Cons)
  next
    case (Some s)
    then obtain nm where l: "l = AVLayer nm (CompItem s)"
      by (cases l rule: comp_source.cases) auto
    with Cons show ?thesis by (auto simp: comp_ids_Cons split: option.splits)
  qed
qed

lemma ranked_children:
  "ranked k st rk \<Longrightarrow> c < length st \<Longrightarrow> d \<in> comp_ids (layers_of st c) \<Longrightarrow>
   d < length st \<and> rk d < rk c"
  by (auto simp: ranked_def wf_project_def acyclic_by_def set_child_comps)

lemma rankedI:
  assumes "\<And>c d. c < length st \<Longrightarrow> d \<in> comp_ids (layers_of st c) \<Longrightarrow> d < length st \<and> rk d < rk c"
    and "\<And>c. rk c < k"
  shows "ranked k st rk"
  using assms by (auto simp: ranked_def wf_project_def acyclic_by_def set_child_comps)

lemma dup_subs_ranked:
  assumes "dup_subs h st sfx rest dm = (st', Some dm')"
    and "agree n S st" "ranked k st rk"
    and "set rest \<subseteq> {..<n}" "set all \<subseteq> {..<n}"
    and "\<forall>c \<in> set rest. comp_ids (layers_of S c) \<subseteq> set all"
    and "ready S all seen rest" "seen \<subseteq> dom dm \<union> Collect (inherited h)"
    and "inj_on (name_of S) (set all \<union> set rest)"
    and "\<forall>c \<in> set all \<union> set rest. \<forall>d. dm (name_of S c) = Some d \<longrightarrow> d < length st \<and> rk d = rk c"
  shows "\<exists>rk'. ranked k st' rk' \<and> (\<forall>c < length st. rk' c = rk c)"
  using assms
proof (induction rest arbitrary: st dm seen rk)
  case Nil
  then show ?case by auto
next
  case (Cons orig rest)
  let ?dm1 = "dm(name_of st orig \<mapsto> length st)"
  let ?st1 = "duplicate st orig sfx"
  let ?st2 = "st @ [\<lparr>cname = name_of st orig @ ''_'' @ sfx,
            layers = map (relinked ?st1 ?dm1) (layers_of st orig)\<rparr>]"
  let ?rk1 = "rk(length st := rk orig)"
  note step = dup_subs_step[OF Cons.prems(1)]
  have rec: "dup_subs h ?st2 sfx rest ?dm1 = (st', Some dm')" by (rule step(1))
  have n: "n \<le> length st" using Cons.prems(2) by (simp add: agree_def)
  have orig: "orig < n" using Cons.prems(4) by simp
  have lo: "layers_of st orig = layers_of S orig" and no: "name_of st orig = name_of S orig"
    using Cons.prems(2) orig by (auto simp: agree_def)
  have agree2: "agree n S ?st2"
    using Cons.prems(2) by (auto simp: agree_def layers_of_append name_of_append)
  have seen1: "insert (name_of S orig) seen \<subseteq> dom ?dm1 \<union> Collect (inherited h)"
    using Cons.prems(8) no by auto
  have ready1: "ready S all (insert (name_of S orig) seen) rest" using Cons.prems(7) by simp
  have r3: "set rest \<subseteq> {..<n}" using Cons.prems(4) by simp
  have r5: "\<forall>c \<in> set rest. comp_ids (layers_of S c) \<subseteq> set all" using Cons.prems(6) by simp
  have inj1: "inj_on (name_of S) (set all \<union> set rest)"
    using Cons.prems(9) by (rule inj_on_subset) auto
  have child: "d < length st \<and> rk d < rk orig"
    if d: "d \<in> comp_ids (map (relinked ?st1 ?dm1) (layers_of S orig))" for d
  proof -
    from d comp_ids_map_relink_image[of ?st1 ?dm1 "layers_of S orig"]
    obtain s where s: "s \<in> comp_ids (layers_of S orig)"
      and ds: "d = (case ?dm1 (name_of ?st1 s) of Some d \<Rightarrow> d | None \<Rightarrow> s)" by blast
    from s Cons.prems(6) have sall: "s \<in> set all" by auto
    with Cons.prems(5) have sn: "s < n" by auto
    with n have "name_of ?st1 s = name_of st s" by (simp add: duplicate_def name_of_append)
    also have "\<dots> = name_of S s" using Cons.prems(2) sn by (simp add: agree_def)
    finally have e: "name_of ?st1 s = name_of S s" .
    have rs: "rk s < rk orig"
      using ranked_children[OF Cons.prems(3), of orig s] s lo orig n by simp
    then have "s \<noteq> orig" by auto
    with Cons.prems(9) sall have ne: "name_of S s \<noteq> name_of S orig"
      by (auto simp: inj_on_def)
    from Cons.prems(7) s sall have "name_of S s \<in> seen" by simp
    with Cons.prems(8) have "name_of S s \<in> dom dm \<or> inherited h (name_of S s)" by auto
    moreover from step(2) s e lo
    have "?dm1 (name_of S s) \<noteq> None \<or> \<not> inherited h (name_of S s)" by auto
    ultimately obtain x where x: "dm (name_of S s) = Some x" using ne no by auto
    with ds e ne no have "d = x" by simp
    moreover from Cons.prems(10) sall x have "x < length st \<and> rk x = rk s" by blast
    ultimately show ?thesis using rs by simp
  qed
  have ranked2: "ranked k ?st2 ?rk1"
  proof (rule rankedI)
    fix c d assume c: "c < length ?st2" and d: "d \<in> comp_ids (layers_of ?st2 c)"
    show "d < length ?st2 \<and> ?rk1 d < ?rk1 c"
    proof (cases "c < length st")
      case True
      with d have "d \<in> comp_ids (layers_of st c)" by (simp add: layers_of_append)
      from ranked_children[OF Cons.prems(3) True this] True show ?thesis by simp
    next
      case False
      with c have c': "c = length st" by simp
      with d have "d \<in> comp_ids (map (relinked ?st1 ?dm1) (layers_of S orig))"
        by (simp add: layers_of_append lo)
      from child[OF this] c' show ?thesis by simp
    qed
  next
    fix c show "?rk1 c < k" using Cons.prems(3) by (simp add: ranked_def)
  qed
  have D1: "\<forall>c \<in> set all \<union> set rest. \<forall>d. ?dm1 (name_of S c) = Some d \<longrightarrow>
      d < length ?st2 \<and> ?rk1 d = ?rk1 c"
  proof (intro ballI allI impI)
    fix c d assume c: "c \<in> set all \<union> set rest" and d: "?dm1 (name_of S c) = Some d"
    from c Cons.prems(4,5) have cn: "c < length st" using n by auto
    show "d < length ?st2 \<and> ?rk1 d = ?rk1 c"
    proof (cases "name_of S c = name_of S orig")
      case True
      with Cons.prems(9) c have "c = orig" by (auto simp: inj_on_def)
      with d True no cn show ?thesis by simp
    next
      case False
      with d no have "dm (name_of S c) = Some d" by simp
      with Cons.prems(10) c have "d < length st \<and> rk d = rk c" by auto
      with cn show ?thesis by simp
    qed
  qed
  from Cons.IH[OF rec agree2 ranked2 r3 Cons.prems(5) r5 ready1 seen1 inj1 D1]
  obtain rk' where rk': "ranked k st' rk'" "\<forall>c < length ?st2. rk' c = ?rk1 c" by blast
  have "\<forall>c < length st. rk' c = rk c" using rk'(2) by simp
  with rk'(1) show ?case by blast
qed

lemma dup_subs_returns:
  assumes "agree n S st" "set rest \<subseteq> {..<n}" "set all \<subseteq> {..<n}"
    and "\<forall>c \<in> set rest. comp_ids (layers_of S c) \<subseteq> set all"
    and "\<forall>c \<in> set all. \<not> inherited h (name_of S c)"
  shows "\<exists>st' dm'. dup_subs h st sfx rest dm = (st', Some dm')"
  using assms
proof (induction rest arbitrary: st dm)
  case Nil
  then show ?case by simp
next
  case (Cons orig rest)
  let ?dm1 = "dm(name_of st orig \<mapsto> length st)"
  let ?st1 = "duplicate st orig sfx"
  let ?st2 = "st @ [\<lparr>cname = name_of st orig @ ''_'' @ sfx,
            layers = map (relinked ?st1 ?dm1) (layers_of st orig)\<rparr>]"
  have n: "n \<le> length st" using Cons.prems(1) by (simp add: agree_def)
  have orig: "orig < n" using Cons.prems(2) by simp
  have lo: "layers_of st orig = layers_of S orig"
    using Cons.prems(1) orig by (auto simp: agree_def)
  have "\<forall>s \<in> comp_ids (layers_of st orig).
           ?dm1 (name_of ?st1 s) \<noteq> None \<or> \<not> inherited h (name_of ?st1 s)"
  proof
    fix s assume s: "s \<in> comp_ids (layers_of st orig)"
    with Cons.prems(4) lo have sall: "s \<in> set all" by auto
    with Cons.prems(3) have sn: "s < n" by auto
    with n have "name_of ?st1 s = name_of st s" by (simp add: duplicate_def name_of_append)
    also have "\<dots> = name_of S s" using Cons.prems(1) sn by (simp add: agree_def)
    finally have "name_of ?st1 s = name_of S s" .
    with Cons.prems(5) sall
    show "?dm1 (name_of ?st1 s) \<noteq> None \<or> \<not> inherited h (name_of ?st1 s)" by simp
  qed
  from dup_subs_step_total[OF this]
  have e: "dup_subs h st sfx (orig # rest) dm = dup_subs h ?st2 sfx rest ?dm1" .
  have agree2: "agree n S ?st2"
    using Cons.prems(1) by (auto simp: agree_def layers_of_append name_of_append)
  have r2: "set rest \<subseteq> {..<n}" using Cons.prems(2) by simp
  have r4: "\<forall>c \<in> set rest. comp_ids (layers_of S c) \<subseteq> set all" using Cons.prems(4) by simp
  from Cons.IH[OF agree2 r2 Cons.prems(3) r4 Cons.prems(5)] e show ?case by simp
qed

lemma duplicateFullTree_returns:
  assumes "n \<le> length st" "m < n" "orig_closed n st"
    and "\<forall>c < n. \<not> inherited h (name_of st c)"
  shows "\<exists>st' dm. duplicateFullTree h st m sfx = (st', Some dm)"
proof -
  let ?all = "discoverAllSubComps st m"
  let ?srt = "sortComps h st ?all"
  have all_n: "set ?all \<subseteq> {..<n}"
    using assms(2,3) by (intro discoverAllSubComps_bounded) (auto simp: orig_closed_def)
  have srt_all: "set ?srt \<subseteq> set ?all" using sortComps_sub by blast
  have closed: "\<forall>c \<in> set (?srt @ [m]). comp_ids (layers_of st c) \<subseteq> set ?all"
    using srt_all discoverAllSubComps_props(2)[of st m] discoverAllSubComps_props(3)[of _ st m]
    by auto
  have ag: "agree n st st" using assms(1) by (simp add: agree_def)
  have rest_n: "set (?srt @ [m]) \<subseteq> {..<n}" using srt_all all_n assms(2) by auto
  have ni: "\<forall>c \<in> set ?all. \<not> inherited h (name_of st c)" using all_n assms(4) by auto
  from dup_subs_returns[OF ag rest_n all_n closed ni]
  show ?thesis by (simp add: duplicateFullTree_dup_subs)
qed

lemma discover_in_closed:
  "(\<forall>c \<in> A. comp_ids (layers_of st c) \<subseteq> A) \<Longrightarrow> comp_ids ls \<subseteq> A \<Longrightarrow> set col \<subseteq> A \<Longrightarrow>
   set (discover st ls col) \<subseteq> A"
proof (induction st ls col rule: discover.induct)
  case (1 st collected)
  then show ?case by simp
next
  case (2 st l ls collected)
  show ?case
  proof (cases "comp_source l")
    case None
    with 2 show ?thesis by (simp add: comp_ids_Cons)
  next
    case (Some subComp)
    then have sub: "subComp \<in> A" using 2(6) by (auto simp: comp_ids_Cons)
    have ls: "comp_ids ls \<subseteq> A" using 2(6) by (auto simp: comp_ids_Cons)
    show ?thesis
    proof (cases "subComp \<in> set collected")
      case True
      with 2(2)[OF Some True 2(5) ls 2(7)] Some show ?thesis by simp
    next
      case False
      have "set (discover st (layers_of st subComp) (collected @ [subComp])) \<subseteq> A"
        using 2(5) sub 2(7) by (intro 2(3)[OF Some False]) auto
      from 2(4)[OF Some False 2(5) ls this] Some False show ?thesis by simp
    qed
  qed
qed

lemma master_not_discovered:
  assumes "orig_closed n st" "acyclic_orig n st rank" "m < n"
  shows "m \<notin> set (discoverAllSubComps st m)"
proof -
  let ?A = "{x. x < n \<and> rank x < rank m}"
  have "\<forall>c \<in> ?A. comp_ids (layers_of st c) \<subseteq> ?A"
    using assms(1,2) by (fastforce simp: orig_closed_def acyclic_orig_def)
  moreover have "comp_ids (layers_of st m) \<subseteq> ?A"
    using assms by (fastforce simp: orig_closed_def acyclic_orig_def)
  ultimately have "set (discover st (layers_of st m) []) \<subseteq> ?A"
    by (intro discover_in_closed) auto
  then show ?thesis by (auto simp: discoverAllSubComps_def)
qed

lemma tree_names_distinct:
  assumes "inv st0 st" "wf_project st0" "acyclic_by st0 rank" "distinct (map cname st0)"
    and "m < length st0"
  shows "distinct (map (name_of st) (m # discoverAllSubComps st m))"
proof -
  let ?n = "length st0"
  let ?all = "discoverAllSubComps st m"
  note oc = inv_orig[OF assms(1,2,3)]
  have all_n: "set ?all \<subseteq> {..<?n}"
    using assms(5) oc(1) by (intro discoverAllSubComps_bounded) (auto simp: orig_closed_def)
  have nm: "name_of st c = map cname st0 ! c" if "c < ?n" for c
    using assms(1) that layers_of_take[of ?n st st0 c] by (simp add: inv_def name_of_def)
  have inj: "inj_on (name_of st) {..<?n}"
  proof (rule inj_onI)
    fix x y assume "x \<in> {..<?n}" "y \<in> {..<?n}" "name_of st x = name_of st y"
    then have "map cname st0 ! x = map cname st0 ! y" "x < length (map cname st0)"
      "y < length (map cname st0)" by (simp_all add: nm)
    with nth_eq_iff_index_eq[OF assms(4), of x y] show "x = y" by blast
  qed
  have "distinct (m # ?all)"
    using master_not_discovered[OF oc assms(5)] discoverAllSubComps_props(1)[of st m] by simp
  moreover have "inj_on (name_of st) (set (m # ?all))"
    using inj all_n assms(5) by (intro inj_on_subset[OF inj]) auto
  ultimately show ?thesis by (simp only: distinct_map)
qed

lemma duplicateFullTree_ranked:
  assumes "duplicateFullTree h st m sfx = (st', Some dm)"
    and "n \<le> length st" "m < n" "orig_closed n st" "acyclic_orig n st rank"
    and "distinct (map (name_of st) (m # discoverAllSubComps st m))"
    and "ranked k st rk"
  shows "\<exists>rk'. ranked k st' rk'"
proof -
  let ?all = "discoverAllSubComps st m"
  let ?srt = "sortComps h st ?all"
  have d: "dup_subs h st sfx (?srt @ [m]) Map.empty = (st', Some dm)"
    using assms(1) by (simp add: duplicateFullTree_dup_subs)
  have all_n: "set ?all \<subseteq> {..<n}"
    using assms(3,4) by (intro discoverAllSubComps_bounded) (auto simp: orig_closed_def)
  have dist: "distinct ?all" by (rule discoverAllSubComps_props)
  have ac: "acyclic_in st ?all rank"
    using assms(5) all_n by (auto simp: acyclic_in_def acyclic_orig_def)
  have sub: "set ?srt \<subseteq> set ?all" using sortComps_sub by blast
  have closed: "\<forall>c \<in> set (?srt @ [m]). comp_ids (layers_of st c) \<subseteq> set ?all"
    using sub discoverAllSubComps_props(2)[of st m] discoverAllSubComps_props(3)[of _ st m]
    by auto
  have ag: "agree n st st" using assms(2) by (simp add: agree_def)
  have rest_n: "set (?srt @ [m]) \<subseteq> {..<n}" using sub all_n assms(3) by auto
  have "inj_on (name_of st) (set (m # ?all))" using assms(6) by (simp only: distinct_map)
  then have inj: "inj_on (name_of st) (set ?all \<union> set (?srt @ [m]))"
    by (rule inj_on_subset) (use sub in auto)
  from dup_subs_ranked[OF d ag assms(7) rest_n all_n closed tree_ready[OF dist ac] _ inj]
  show ?thesis by auto
qed

lemma set_layer_ranked:
  assumes "ranked k st rk" "comp_source l = None"
  shows "ranked k (set_layer st (i, c) l) rk"
proof (rule rankedI)
  fix x d assume x: "x < length (set_layer st (i, c) l)"
    and d: "d \<in> comp_ids (layers_of (set_layer st (i, c) l) x)"
  have len: "length (set_layer st (i, c) l) = length st"
    by (simp add: set_layer_def length_set_layers)
  have "comp_ids (layers_of (set_layer st (i, c) l) x) \<subseteq> comp_ids (layers_of st x)"
    using comp_ids_update[OF assms(2), of "layers_of st c" i]
    by (auto simp: set_layer_def layers_of_set_layers)
  with d have "d \<in> comp_ids (layers_of st x)" by blast
  from ranked_children[OF assms(1) _ this] x len
  show "d < length (set_layer st (i, c) l) \<and> rk d < rk x" by simp
next
  fix x show "rk x < k" using assms(1) by (simp add: ranked_def)
qed

lemma replace_layer_ranked:
  assumes "replace_layer h st ty (i, c) v = (st', ok)" "ranked k st rk"
  shows "ranked k st' rk"
proof -
  have "st' = st \<or> (\<exists>nm. st' = set_layer st (i, c) (TextLayer nm v))
      \<or> (\<exists>nm. st' = set_layer st (i, c) (AVLayer nm (FootageItem v)))"
    using assms(1)
    by (auto simp: replace_layer_def replaceText_def replaceFootage_def
        split: if_splits option.splits layer.splits)
  then show ?thesis
  proof (elim disjE exE)
    assume "st' = st"
    with assms(2) show ?thesis by simp
  next
    fix nm assume "st' = set_layer st (i, c) (TextLayer nm v)"
    with set_layer_ranked[OF assms(2), of "TextLayer nm v" i c] show ?thesis by simp
  next
    fix nm assume "st' = set_layer st (i, c) (AVLayer nm (FootageItem v))"
    with set_layer_ranked[OF assms(2), of "AVLayer nm (FootageItem v)" i c] show ?thesis by simp
  qed
qed

lemma apply_row_returns:
  assumes "ranked k st rk"
  shows "\<exists>st' sts' errorLog'. apply_row k h lang allDupes r (st, sts, errorLog)
            = Some (st', sts', errorLog') \<and> ranked k st' rk"
proof (cases "map_of r lang = None \<or> map_of r lang = Some []")
  case True
  then show ?thesis using assms by (auto simp: apply_row_def Let_def)
next
  case False
  then obtain v where v: "map_of r lang = Some v" "v \<noteq> []" by auto
  show ?thesis
  proof (cases "allDupes (js_str (map_of r ''comp_name''))")
    case None
    with v assms show ?thesis by (simp add: apply_row_def Let_def property_of_def)
  next
    case (Some dupeMaster)
    have "rk dupeMaster < k" using assms by (simp add: ranked_def)
    with findLayerDeep_returns(1)[of st rk dupeMaster k "map_of r ''layer_name''"] assms
    obtain res where res: "findLayerDeep k st dupeMaster (map_of r ''layer_name'') = Some res"
      by (auto simp: ranked_def)
    show ?thesis
    proof (cases res)
      case None
      with v Some res assms show ?thesis by (simp add: apply_row_def Let_def property_of_def)
    next
      case f: (Some fnd)
      obtain i c where fnd: "fnd = (i, c)" by (cases fnd)
      obtain st' ok where rl: "replace_layer h st (row_type r) (i, c) v = (st', ok)"
        by (cases "replace_layer h st (row_type r) (i, c) v")
      from replace_layer_ranked[OF rl assms] have "ranked k st' rk" .
      with v Some res f fnd rl show ?thesis by (simp add: apply_row_def Let_def property_of_def)
    qed
  qed
qed

lemma apply_rows_returns:
  "ranked k st rk \<Longrightarrow>
   \<exists>st' sts' errorLog'. apply_rows k h lang allDupes rs (st, sts, errorLog)
      = Some (st', sts', errorLog') \<and> ranked k st' rk"
proof (induction rs arbitrary: st sts errorLog)
  case Nil
  then show ?case by simp
next
  case (Cons r rs)
  from apply_row_returns[OF Cons.prems, of h lang allDupes r sts errorLog]
  obtain st1 sts1 log1 where 1: "apply_row k h lang allDupes r (st, sts, errorLog)
      = Some (st1, sts1, log1)" and r1: "ranked k st1 rk" by blast
  from Cons.IH[OF r1, of sts1 log1] 1 show ?case by simp
qed

lemma inv_names:
  assumes "inv st0 st" "c < length st0"
  shows "name_of st c = cname (st0 ! c)"
  using assms layers_of_take[of "length st0" st st0 c] by (simp add: inv_def name_of_def)

lemma duplicate_trees_ranked:
  "duplicate_trees h st compInfo sfx ms allDupes = (st', Some allDupes') \<Longrightarrow>
   inv st0 st \<Longrightarrow> wf_project st0 \<Longrightarrow> acyclic_by st0 rank \<Longrightarrow> distinct (map cname st0) \<Longrightarrow>
   ranked k st rk \<Longrightarrow>
   \<forall>m c subs. compInfo m = Some (c, subs) \<longrightarrow> c < length st0 \<Longrightarrow>
   \<exists>rk'. ranked k st' rk'"
proof (induction ms arbitrary: st allDupes rk)
  case Nil
  then show ?case by auto
next
  case (Cons m ms)
  from Cons.prems(1) obtain mComp subs st1 dm where
    ci: "compInfo m = Some (mComp, subs)"
    and d: "duplicateFullTree h st mComp sfx = (st1, Some dm)"
    and rec: "duplicate_trees h st1 compInfo sfx ms (allDupes ++ dm) = (st', Some allDupes')"
    by (auto simp: copy_own_def split: option.splits prod.splits if_splits)
  let ?n = "length st0"
  have m: "mComp < ?n" using Cons.prems(7) ci by blast
  have n: "?n \<le> length st" and tk: "take ?n st = st0" and nc: "new_closed ?n st"
    using Cons.prems(2) by (auto simp: inv_def)
  note oc = inv_orig[OF Cons.prems(2,3,4)]
  from duplicateFullTree_frame[OF d n m oc nc]
  have f: "take (length st) st1 = st" "length st \<le> length st1" "new_closed ?n st1" by auto
  have "take ?n st1 = take ?n (take (length st) st1)" using n by (simp add: min_def)
  with f(1) tk have "take ?n st1 = st0" by simp
  with f n have inv1: "inv st0 st1" by (simp add: inv_def)
  from duplicateFullTree_ranked[OF d n m oc
      tree_names_distinct[OF Cons.prems(2,3,4,5) m] Cons.prems(6)]
  obtain rk1 where rk1: "ranked k st1 rk1" by blast
  from Cons.IH[OF rec inv1 Cons.prems(3,4,5) rk1 Cons.prems(7)] show ?case .
qed

lemma run_languages_returns:
  "inv st0 st \<Longrightarrow> wf_project st0 \<Longrightarrow> acyclic_by st0 rank \<Longrightarrow> distinct (map cname st0) \<Longrightarrow>
   ranked k st rk \<Longrightarrow>
   \<forall>m c subs. compInfo m = Some (c, subs) \<longrightarrow> c < length st0 \<Longrightarrow>
   run_languages k h compInfo masterList rs langs (st, sts, errorLog) \<noteq> None"
proof (induction langs arbitrary: st sts errorLog rk)
  case Nil
  show ?case by simp
next
  case (Cons lang langs)
  obtain st1 res where 0: "duplicate_trees h st compInfo (langSuffix_of lang) masterList Map.empty
      = (st1, res)"
    by (cases "duplicate_trees h st compInfo (langSuffix_of lang) masterList Map.empty")
  show ?case
  proof (cases res)
    case None
    with 0 show ?thesis by simp
  next
    case (Some allDupes)
    note 0 = 0[unfolded Some]
    from duplicate_trees_inv[OF 0 Cons.prems(1,2,3,6)]
    have i1: "inv st0 st1" and ran: "ran allDupes \<subseteq> {length st0..}" by auto
    from duplicate_trees_ranked[OF 0 Cons.prems(1,2,3,4,5,6)]
    obtain rk1 where r1: "ranked k st1 rk1" by blast
    from apply_rows_returns[OF r1, of h lang allDupes rs sts errorLog]
    obtain st2 sts2 log2 where
      1: "apply_rows k h lang allDupes rs (st1, sts, errorLog) = Some (st2, sts2, log2)"
      and r2: "ranked k st2 rk1" by blast
    from apply_rows_inv[OF 1 i1 ran] have i2: "inv st0 st2" .
    have "run_languages k h compInfo masterList rs (lang # langs) (st, sts, errorLog)
        = run_languages k h compInfo masterList rs langs (st2, sts2, log2)"
      using 0 1 by simp
    with Cons.IH[OF i2 Cons.prems(2,3,4) r2 Cons.prems(6), of sts2 log2]
    show ?thesis by simp
  qed
qed

lemma precheck_returns:
  "ranked k st rk \<Longrightarrow> \<forall>r \<in> set rs. compInfo (js_str (map_of r ''comp_name'')) \<noteq> None \<Longrightarrow>
   \<exists>layerCheck. precheck k st compInfo rs = Some (Some layerCheck)"
proof (induction rs)
  case Nil
  then show ?case by simp
next
  case (Cons r rs)
  from Cons.prems(2) obtain checkComp subs where
    ci: "compInfo (js_str (map_of r ''comp_name'')) = Some (checkComp, subs)" by fastforce
  have "rk checkComp < k" using Cons.prems(1) by (simp add: ranked_def)
  with findLayerDeep_returns(1)[of st rk checkComp k "map_of r ''layer_name''"] Cons.prems(1)
  obtain res where res: "findLayerDeep k st checkComp (map_of r ''layer_name'') = Some res"
    by (auto simp: ranked_def)
  from Cons.IH Cons.prems obtain lc where "precheck k st compInfo rs = Some (Some lc)" by auto
  with ci res show ?case by simp
qed

lemma validate_complete:
  "validate st ms compInfo = Inr compInfo' \<Longrightarrow>
   (\<forall>m \<in> set ms. compInfo' m \<noteq> None) \<and> (\<forall>m. compInfo m \<noteq> None \<longrightarrow> compInfo' m \<noteq> None)"
proof (induction ms arbitrary: compInfo)
  case Nil
  then show ?case by simp
next
  case (Cons m ms)
  from Cons.prems obtain c where c: "findComp st m = Some c"
    and rec: "validate st ms (compInfo(m \<mapsto> (c, discoverAllSubComps st c))) = Inr compInfo'"
    by (auto split: option.splits)
  from Cons.IH[OF rec] show ?case by auto
qed

lemma fold_update_keys:
  "fst ` set (fold (\<lambda>r m. AList.update (f r) True m) rs m0) = fst ` set m0 \<union> f ` set rs"
  by (induction rs arbitrary: m0) (auto simp: dom_update)

lemma set_masterCompNames_of:
  "fst ` set (masterCompNames_of rs) = (\<lambda>r. js_str (map_of r ''comp_name'')) ` set rs"
  using fold_update_keys[of "\<lambda>r. js_str (map_of r ''comp_name'')" rs "[]"]
  by (simp add: masterCompNames_of_def)

lemma own_names_Some:
  "own_names obj names = Some masterList \<Longrightarrow> masterList = filter (\<lambda>nm. obj nm \<noteq> None) names"
  by (induction names arbitrary: masterList)
    (auto simp: hasOwnProperty_def split: option.splits if_splits)

lemma set_masterList_of:
  assumes "masterList_of rs = Some masterList"
  shows "set masterList = (\<lambda>r. js_str (map_of r ''comp_name'')) ` set rs"
proof -
  let ?m = "masterCompNames_of rs"
  from assms have "masterList = filter (\<lambda>nm. map_of ?m nm \<noteq> None) (map fst ?m)"
    unfolding masterList_of_def by (rule own_names_Some)
  moreover have "\<forall>nm \<in> set (map fst ?m). map_of ?m nm \<noteq> None"
    by (auto simp: map_of_eq_None_iff)
  ultimately have "masterList = map fst ?m" by simp
  then show ?thesis using set_masterCompNames_of[of rs] by simp
qed

lemma main_returns:
  assumes "wf_project st" "acyclic_by st rank" "\<forall>c. rank c < k" "distinct (map cname st)"
  shows "\<exists>out st'. main k h st csvFile confirmed = Some (out, st')"
proof (cases csvFile)
  case None
  then show ?thesis by (simp add: main_def)
next
  case (Some csv)
  let ?d = "parseCSV csv"
  have rk: "ranked k st rank" using assms by (simp add: ranked_def)
  show ?thesis
  proof (cases "detectLanguages (headers ?d) = []")
    case True
    with Some show ?thesis by (simp add: main_def Let_def)
  next
    case langs: False
    show ?thesis
    proof (cases "masterList_of (rows ?d)")
      case None
      with Some langs show ?thesis by (simp add: main_def Let_def)
    next
      case ml: (Some masterList)
      show ?thesis
      proof (cases "validate st masterList Map.empty")
        case (Inl nm)
        with Some langs ml show ?thesis by (simp add: main_def Let_def)
      next
        case (Inr compInfo)
        have ci: "\<forall>m c subs. compInfo m = Some (c, subs) \<longrightarrow> c < length st"
          using validate_bound[OF Inr] by simp
        have def: "\<forall>m \<in> set masterList. compInfo m \<noteq> None"
          using validate_complete[OF Inr] by blast
        then have "\<forall>r \<in> set (rows ?d). compInfo (js_str (map_of r ''comp_name'')) \<noteq> None"
          by (simp add: set_masterList_of[OF ml])
        from precheck_returns[OF rk this] obtain lc where
          pc: "precheck k st compInfo (rows ?d) = Some (Some lc)" by blast
        have i0: "inv st st" by (simp add: inv_def new_closed_def layers_of_def comp_ids_def)
        from run_languages_returns[OF i0 assms(1,2,4) rk ci,
            of h masterList "rows ?d" "detectLanguages (headers ?d)"
              "\<lparr>success = 0, skipped = 0, errors = 0\<rparr>" "[]"]
        obtain s' ok where r: "run_languages k h compInfo masterList (rows ?d)
            (detectLanguages (headers ?d))
            (st, \<lparr>success = 0, skipped = 0, errors = 0\<rparr>, []) = Some (s', ok)" by auto
        obtain st' sts errorLog where s': "s' = (st', sts, errorLog)" by (cases s')
        show ?thesis
        proof (cases confirmed)
          case False
          with Some langs ml Inr pc show ?thesis by (simp add: main_def Let_def)
        next
          case True
          with Some langs ml Inr pc r s' show ?thesis
            by (cases ok) (simp_all add: main_def Let_def)
        qed
      qed
    qed
  qed
qed

lemma duplicateFullTree_distinct_names:
  assumes "wf_project st" "acyclic_by st rank" "m < length st"
    and "distinct (map (name_of st) (m # discoverAllSubComps st m))"
    and "\<forall>c \<in> set (discoverAllSubComps st m). \<not> inherited h (name_of st c)"
    and "duplicateFullTree h st m sfx = (st', Some dm)"
  shows "take (length st) st' = st
       \<and> length st' = length st + length (discoverAllSubComps st m) + 1
       \<and> dom dm = name_of st ` set (m # discoverAllSubComps st m)
       \<and> (\<forall>c \<in> set (m # discoverAllSubComps st m).
             \<exists>d. dm (name_of st c) = Some d \<and> length st \<le> d \<and> d < length st'
               \<and> name_of st' d = name_of st c @ ''_'' @ sfx
               \<and> layers_of st' d = map (relinked st dm) (layers_of st c)
               \<and> (\<forall>s \<in> comp_ids (layers_of st c). name_of st s \<in> dom dm))"
proof -
  have i0: "inv st st" by (simp add: inv_def new_closed_def layers_of_def comp_ids_def)
  from duplicateFullTree_iso[OF assms(6) le_refl assms(3) inv_orig[OF i0 assms(1,2)] assms(4,5)]
  show ?thesis .
qed

subsection \<open>Runs that end without an error\<close>

lemma own_names_None:
  "own_names obj names = None \<Longrightarrow> obj ''hasOwnProperty'' \<noteq> None"
  by (induction names) (auto simp: hasOwnProperty_def split: option.splits if_splits)

lemma masterList_of_None:
  assumes "masterList_of rs = None"
  shows "\<exists>r \<in> set rs. js_str (map_of r ''comp_name'') = ''hasOwnProperty''"
proof -
  from assms have "map_of (masterCompNames_of rs) ''hasOwnProperty'' \<noteq> None"
    unfolding masterList_of_def by (rule own_names_None)
  then have "''hasOwnProperty'' \<in> fst ` set (masterCompNames_of rs)"
    by (simp add: map_of_eq_None_iff)
  then show ?thesis by (auto simp: set_masterCompNames_of)
qed

lemma hidden_method_run:
  "main 2 no_files demo_project
     (Some (''comp_name,layer_name,type,en'' @ CHR 0x0A # ''hasOwnProperty,Headline,text,Hi'')) True
   = Some (RuntimeError, demo_project)"
  by code_simp

lemma duplicate_trees_completes:
  "inv st0 st \<Longrightarrow> wf_project st0 \<Longrightarrow> acyclic_by st0 rank \<Longrightarrow> distinct (map cname st0) \<Longrightarrow>
   \<forall>m c subs. compInfo m = Some (c, subs) \<longrightarrow> c < length st0 \<Longrightarrow>
   \<forall>m \<in> set ms. compInfo m \<noteq> None \<Longrightarrow>
   \<forall>c \<in> set st0. \<not> inherited h (cname c) \<and> cname c \<noteq> ''hasOwnProperty'' \<Longrightarrow>
   snd (duplicate_trees h st compInfo sfx ms allDupes) \<noteq> None"
proof (induction ms arbitrary: st allDupes)
  case Nil
  then show ?case by simp
next
  case (Cons m ms)
  from Cons.prems(6) obtain mComp subs where ci: "compInfo m = Some (mComp, subs)" by fastforce
  let ?n = "length st0"
  let ?all = "discoverAllSubComps st mComp"
  have m: "mComp < ?n" using Cons.prems(5) ci by blast
  have n: "?n \<le> length st" and tk: "take ?n st = st0" and nc: "new_closed ?n st"
    using Cons.prems(1) by (auto simp: inv_def)
  note oc = inv_orig[OF Cons.prems(1,2,3)]
  have nm: "\<forall>c < ?n. \<not> inherited h (name_of st c) \<and> name_of st c \<noteq> ''hasOwnProperty''"
    using Cons.prems(7) inv_names[OF Cons.prems(1)] by simp
  then have ni: "\<forall>c < ?n. \<not> inherited h (name_of st c)" by simp
  from duplicateFullTree_returns[OF n m oc(1) ni, of sfx]
  obtain st1 dm where d: "duplicateFullTree h st mComp sfx = (st1, Some dm)" by blast
  have all_n: "set ?all \<subseteq> {..<?n}"
    using m oc(1) by (intro discoverAllSubComps_bounded) (auto simp: orig_closed_def)
  then have nia: "\<forall>c \<in> set ?all. \<not> inherited h (name_of st c)" using ni by auto
  from duplicateFullTree_iso[OF d n m oc tree_names_distinct[OF Cons.prems(1,2,3,4) m] nia]
  have "dom dm = name_of st ` set (mComp # ?all)" by blast
  with all_n m nm have "''hasOwnProperty'' \<notin> dom dm" by auto
  then have co: "copy_own allDupes dm = Some (allDupes ++ dm)" by (auto simp: copy_own_def)
  from duplicateFullTree_frame[OF d n m oc nc]
  have f: "take (length st) st1 = st" "length st \<le> length st1" "new_closed ?n st1" by auto
  have "take ?n st1 = take ?n (take (length st) st1)" using n by (simp add: min_def)
  with f(1) tk have "take ?n st1 = st0" by simp
  with f n have inv1: "inv st0 st1" by (simp add: inv_def)
  have ms: "\<forall>m \<in> set ms. compInfo m \<noteq> None" using Cons.prems(6) by simp
  from Cons.IH[OF inv1 Cons.prems(2,3,4,5) ms Cons.prems(7), of "allDupes ++ dm"] ci d co
  show ?case by simp
qed

lemma run_languages_completes:
  "inv st0 st \<Longrightarrow> wf_project st0 \<Longrightarrow> acyclic_by st0 rank \<Longrightarrow> distinct (map cname st0) \<Longrightarrow>
   ranked k st rk \<Longrightarrow>
   \<forall>m c subs. compInfo m = Some (c, subs) \<longrightarrow> c < length st0 \<Longrightarrow>
   \<forall>m \<in> set masterList. compInfo m \<noteq> None \<Longrightarrow>
   \<forall>c \<in> set st0. \<not> inherited h (cname c) \<and> cname c \<noteq> ''hasOwnProperty'' \<Longrightarrow>
   \<exists>s'. run_languages k h compInfo masterList rs langs (st, sts, errorLog) = Some (s', True)"
proof (induction langs arbitrary: st sts errorLog rk)
  case Nil
  show ?case by simp
next
  case (Cons lang langs)
  from duplicate_trees_completes[OF Cons.prems(1,2,3,4,6,7,8), of "langSuffix_of lang" Map.empty]
  obtain st1 allDupes where
    0: "duplicate_trees h st compInfo (langSuffix_of lang) masterList Map.empty
        = (st1, Some allDupes)"
    by (cases "duplicate_trees h st compInfo (langSuffix_of lang) masterList Map.empty") auto
  from duplicate_trees_inv[OF 0 Cons.prems(1,2,3,6)]
  have i1: "inv st0 st1" and ran: "ran allDupes \<subseteq> {length st0..}" by auto
  from duplicate_trees_ranked[OF 0 Cons.prems(1,2,3,4,5,6)]
  obtain rk1 where r1: "ranked k st1 rk1" by blast
  from apply_rows_returns[OF r1, of h lang allDupes rs sts errorLog]
  obtain st2 sts2 log2 where
    1: "apply_rows k h lang allDupes rs (st1, sts, errorLog) = Some (st2, sts2, log2)"
    and r2: "ranked k st2 rk1" by blast
  from apply_rows_inv[OF 1 i1 ran] have i2: "inv st0 st2" .
  have "run_languages k h compInfo masterList rs (lang # langs) (st, sts, errorLog)
      = run_languages k h compInfo masterList rs langs (st2, sts2, log2)"
    using 0 1 by simp
  with Cons.IH[OF i2 Cons.prems(2,3,4) r2 Cons.prems(6,7,8), of sts2 log2]
  show ?case by simp
qed

lemma main_no_runtime_error:
  assumes "wf_project st" "acyclic_by st rank" "\<forall>c. rank c < k" "distinct (map cname st)"
    and "\<forall>c \<in> set st. \<not> inherited h (cname c) \<and> cname c \<noteq> ''hasOwnProperty''"
    and "\<forall>csv. csvFile = Some csv \<longrightarrow>
           (\<forall>r \<in> set (rows (parseCSV csv)). js_str (map_of r ''comp_name'') \<noteq> ''hasOwnProperty'')"
  shows "\<exists>out st'. main k h st csvFile confirmed = Some (out, st') \<and> out \<noteq> RuntimeError"
proof (cases csvFile)
  case None
  then show ?thesis by (simp add: main_def)
next
  case (Some csv)
  let ?d = "parseCSV csv"
  have rk: "ranked k st rank" using assms by (simp add: ranked_def)
  show ?thesis
  proof (cases "detectLanguages (headers ?d) = []")
    case True
    with Some show ?thesis by (simp add: main_def Let_def)
  next
    case langs: False
    from assms(6) Some masterList_of_None[of "rows ?d"]
    obtain masterList where ml: "masterList_of (rows ?d) = Some masterList" by fastforce
    show ?thesis
    proof (cases "validate st masterList Map.empty")
      case (Inl nm)
      with Some langs ml show ?thesis by (simp add: main_def Let_def)
    next
      case (Inr compInfo)
      have ci: "\<forall>m c subs. compInfo m = Some (c, subs) \<longrightarrow> c < length st"
        using validate_bound[OF Inr] by simp
      have def: "\<forall>m \<in> set masterList. compInfo m \<noteq> None"
        using validate_complete[OF Inr] by blast
      then have "\<forall>r \<in> set (rows ?d). compInfo (js_str (map_of r ''comp_name'')) \<noteq> None"
        by (simp add: set_masterList_of[OF ml])
      from precheck_returns[OF rk this] obtain lc where
        pc: "precheck k st compInfo (rows ?d) = Some (Some lc)" by blast
      have i0: "inv st st" by (simp add: inv_def new_closed_def layers_of_def comp_ids_def)
      from run_languages_completes[OF i0 assms(1,2,4) rk ci def assms(5),
          of "rows ?d" "detectLanguages (headers ?d)"
            "\<lparr>success = 0, skipped = 0, errors = 0\<rparr>" "[]"]
      obtain s' where r: "run_languages k h compInfo masterList (rows ?d)
          (detectLanguages (headers ?d))
          (st, \<lparr>success = 0, skipped = 0, errors = 0\<rparr>, []) = Some (s', True)" by blast
      obtain st' sts errorLog where s': "s' = (st', sts, errorLog)" by (cases s')
      from Some langs ml Inr pc r s' show ?thesis
        by (cases confirmed) (simp_all add: main_def Let_def)
    qed
  qed
qed

subsection \<open>The run and the original compositions\<close>

text \<open>
  Claim C2. On a well-formed project without cycles, a run of \<^verbatim>\<open>main\<close> that ends,
  whatever its outcome (the summary, an alert, or an error that the script does not
  catch), the manifest and the answers of the host, leaves every composition that the
  project had at the start as it was, layer by layer: the compositions are only added
  after them, and the replacements are made in compositions added by the run. When
  moreover the compositions bear distinct names and the bound on the search exceeds
  every rank, the run does end, with one of these outcomes.
\<close>

theorem main_leaves_originals_untouched:
  assumes "wf_project st" "acyclic_by st rank"
  shows "(main k h st csvFile confirmed = Some (out, st')
            \<longrightarrow> length st \<le> length st' \<and> take (length st) st' = st)
       \<and> ((\<forall>c. rank c < k) \<and> distinct (map cname st)
            \<longrightarrow> (\<exists>r. main k h st csvFile confirmed = Some r))"
  using main_frame[OF assms] main_returns[OF assms] by blast

theorem main_leaves_originals_untouched_witness:
  "wf_project demo_project \<and> acyclic_by demo_project (\<lambda>c. 1 - c)
   \<and> distinct (map cname demo_project)
   \<and> main 2 no_files demo_project (Some demo_manifest) True =
       Some (Complete \<lparr>success = 1, skipped = 1, errors = 0\<rparr> [],
         [\<lparr>cname = ''Main'', layers = [AVLayer ''Sub'' (CompItem 1)]\<rparr>,
          \<lparr>cname = ''Sub'', layers = [TextLayer ''Headline'' ''Hello'']\<rparr>,
          \<lparr>cname = ''Sub_en'', layers = [TextLayer ''Headline'' ''Hi'']\<rparr>,
          \<lparr>cname = ''Main_en'', layers = [AVLayer ''Sub'' (CompItem 2)]\<rparr>,
          \<lparr>cname = ''Sub_fr'', layers = [TextLayer ''Headline'' ''Hello'']\<rparr>,
          \<lparr>cname = ''Main_fr'', layers = [AVLayer ''Sub'' (CompItem 4)]\<rparr>])
   \<and> take (length demo_project)
        [\<lparr>cname = ''Main'', layers = [AVLayer ''Sub'' (CompItem 1)]\<rparr>,
          \<lparr>cname = ''Sub'', layers = [TextLayer ''Headline'' ''Hello'']\<rparr>,
          \<lparr>cname = ''Sub_en'', layers = [TextLayer ''Headline'' ''Hi'']\<rparr>,
          \<lparr>cname = ''Main_en'', layers = [AVLayer ''Sub'' (CompItem 2)]\<rparr>,
          \<lparr>cname = ''Sub_fr'', layers = [TextLayer ''Headline'' ''Hello'']\<rparr>,
          \<lparr>cname = ''Main_fr'', layers = [AVLayer ''Sub'' (CompItem 4)]\<rparr>] = demo_project
   \<and> (\<exists>r. main 2 (no_files\<lparr>file_exists := (\<lambda>p. True), import_ok := (\<lambda>p. True)\<rparr>)
          demo_project (Some demo_manifest) True = Some r)
   \<and> wf_project inherited_name_project \<and> acyclic_by inherited_name_project (\<lambda>c. 1 - c)
   \<and> main 2 no_files inherited_name_project
       (Some (''comp_name,layer_name,type,en'' @ CHR 0x0A # ''M,T,text,Hi'')) True
     = Some (RuntimeError,
         inherited_name_project @ [\<lparr>cname = ''M_en'', layers = [AVLayer ''s'' (CompItem 1)]\<rparr>])
   \<and> take (length inherited_name_project)
        (inherited_name_project @ [\<lparr>cname = ''M_en'', layers = [AVLayer ''s'' (CompItem 1)]\<rparr>])
     = inherited_name_project"
proof -
  have w: "wf_project demo_project" by code_simp
  have a: "acyclic_by demo_project (\<lambda>c. 1 - c)" by code_simp
  have d: "distinct (map cname demo_project)" by code_simp
  have b: "\<forall>c::nat. 1 - c < 2" by (intro allI) arith
  note inst = main_leaves_originals_untouched[OF w a]
  from inst[of 2 no_files "Some demo_manifest" True] demo_run
  have 1: "take (length demo_project)
        [\<lparr>cname = ''Main'', layers = [AVLayer ''Sub'' (CompItem 1)]\<rparr>,
          \<lparr>cname = ''Sub'', layers = [TextLayer ''Headline'' ''Hello'']\<rparr>,
          \<lparr>cname = ''Sub_en'', layers = [TextLayer ''Headline'' ''Hi'']\<rparr>,
          \<lparr>cname = ''Main_en'', layers = [AVLayer ''Sub'' (CompItem 2)]\<rparr>,
          \<lparr>cname = ''Sub_fr'', layers = [TextLayer ''Headline'' ''Hello'']\<rparr>,
          \<lparr>cname = ''Main_fr'', layers = [AVLayer ''Sub'' (CompItem 4)]\<rparr>] = demo_project"
    by blast
  from inst[of 2 "no_files\<lparr>file_exists := (\<lambda>p. True), import_ok := (\<lambda>p. True)\<rparr>"
      "Some demo_manifest" True] b d
  have 2: "\<exists>r. main 2 (no_files\<lparr>file_exists := (\<lambda>p. True), import_ok := (\<lambda>p. True)\<rparr>)
          demo_project (Some demo_manifest) True = Some r"
    by blast
  have w2: "wf_project inherited_name_project" by code_simp
  have a2: "acyclic_by inherited_name_project (\<lambda>c. 1 - c)" by code_simp
  have r2: "main 2 no_files inherited_name_project
       (Some (''comp_name,layer_name,type,en'' @ CHR 0x0A # ''M,T,text,Hi'')) True
     = Some (RuntimeError,
         inherited_name_project @ [\<lparr>cname = ''M_en'', layers = [AVLayer ''s'' (CompItem 1)]\<rparr>])"
    using inherited_name_run by blast
  from main_leaves_originals_untouched[OF w2 a2, of 2 no_files
      "Some (''comp_name,layer_name,type,en'' @ CHR 0x0A # ''M,T,text,Hi'')" True] r2
  have 3: "take (length inherited_name_project)
        (inherited_name_project @ [\<lparr>cname = ''M_en'', layers = [AVLayer ''s'' (CompItem 1)]\<rparr>])
     = inherited_name_project"
    by blast
  from w a d demo_run 1 2 w2 a2 r2 3 show ?thesis by blast
qed

end
